theory Spec2Isabelle
  imports Complex_Main "HOL-Library.Word"
begin

section \<open>JavaScript strings and values\<close>

text \<open>
  A JavaScript string is a sequence of 16-bit code units. A literal of the source whose
  characters all lie below U+0100 is written with \<open>str\<close>, which maps each character to the
  code unit of the same number.
\<close>

type_synonym jsstring = "16 word list"

definition str :: "string \<Rightarrow> jsstring" where
  "str cs = map of_char cs"

text \<open>
  The request body is the object that \<open>express.json()\<close> parsed. Its field \<open>message\<close> is
  any JSON value, or \<open>undefined\<close> when the field is absent; the handler tests it with \<open>!\<close>
  and calls a string method on it, so only its truthiness and whether it is a string
  matter. A number carries the value of the parsed double. The members of an array or
  of an object are not modelled: both are truthy and neither has a callable \<open>replace\<close>.
  The field \<open>sessionId\<close> is taken at the type the endpoint declares, an optional string.
\<close>

datatype jsval = JUndefined | JNull | JBool bool | JNumber real | JString jsstring
  | JArray | JObject

fun truthy :: "jsval \<Rightarrow> bool" where
  "truthy JUndefined = False"
| "truthy JNull = False"
| "truthy (JBool b) = b"
| "truthy (JNumber x) = (x \<noteq> 0)"
| "truthy (JString s) = (s \<noteq> [])"
| "truthy JArray = True"
| "truthy JObject = True"

record request =
  message :: jsval
  sessionId :: "jsstring option"

text \<open>A thrown \<open>Error\<close>; the handler reads only its \<open>message\<close>.\<close>

datatype jserror = JSError (errorText: jsstring)

text \<open>\<open>a || b\<close> where \<open>a\<close> is a string: the empty string is the only falsy string.\<close>

definition orDefault :: "jsstring \<Rightarrow> jsstring \<Rightarrow> jsstring" where
  "orDefault a b = (if a = [] then b else a)"

section \<open>The message sanitizer\<close>

text \<open>
  \<open>String.prototype.replace\<close> with a global regular expression and the replacement
  \<open>""\<close>. The matcher gives the length of the match that starts at the head of the rest
  of the input, if there is one. The scan goes from left to right; a match is dropped
  and the scan goes on behind it; where nothing matches, or the match is empty, the
  code unit is kept and the scan moves on by one.
\<close>

fun replaceGlobal :: "(jsstring \<Rightarrow> nat option) \<Rightarrow> jsstring \<Rightarrow> jsstring" where
  "replaceGlobal m [] = []"
| "replaceGlobal m (c # cs) =
     (case m (c # cs) of
        None \<Rightarrow> c # replaceGlobal m cs
      | Some 0 \<Rightarrow> c # replaceGlobal m cs
      | Some (Suc n) \<Rightarrow> replaceGlobal m (drop n cs))"

text \<open>
  The flag \<open>i\<close> without \<open>u\<close> compares code units after \<open>Canonicalize\<close>, which is
  \<open>toUpperCase\<close> unless that leaves the single code unit or maps a code unit from 128 on
  below 128. The labels of the first expression consist of ASCII letters, the space, the
  colon and U+00F3; a code unit has the canonical form of one of these exactly when
  \<open>canonicalize\<close> below gives that form, so \<open>canonicalize\<close> decides every comparison the
  expression makes.
\<close>

definition canonicalize :: "16 word \<Rightarrow> 16 word" where
  "canonicalize c =
     (if 0x61 \<le> c \<and> c \<le> 0x7A then c - 0x20 else if c = 0xF3 then 0xD3 else c)"

fun matchLiteral :: "jsstring \<Rightarrow> jsstring \<Rightarrow> bool" where
  "matchLiteral [] t = True"
| "matchLiteral (p # ps) [] = False"
| "matchLiteral (p # ps) (c # cs) =
     (canonicalize p = canonicalize c \<and> matchLiteral ps cs)"

text \<open>
  \<open>/(Usuario:|Asistente:|Assistant:|Pregunta del Usuario:|Respuesta:|Interacci.n:)/gi\<close>,
  where the dot stands for U+00F3: the alternatives in the order of the source; the
  first that matches at a position is the match there.
\<close>

definition roleMarkers :: "jsstring list" where
  "roleMarkers =
     [str ''Usuario:'', str ''Asistente:'', str ''Assistant:'',
      str ''Pregunta del Usuario:'', str ''Respuesta:'',
      str (''Interacci'' @ [CHR 0xF3] @ ''n:'')]"

definition matchMarker :: "jsstring \<Rightarrow> nat option" where
  "matchMarker t = map_option length (find (\<lambda>m. matchLiteral m t) roleMarkers)"

text \<open>
  \<open>/@[\w.-]+/g\<close>: \<open>\w\<close> is \<open>[A-Za-z0-9_]\<close>; the quantifier is greedy and nothing follows
  it, so the match is the \<open>@\<close> with the longest run of class members behind it.
\<close>

definition isWordChar :: "16 word \<Rightarrow> bool" where
  "isWordChar c \<longleftrightarrow>
     (0x30 \<le> c \<and> c \<le> 0x39) \<or> (0x41 \<le> c \<and> c \<le> 0x5A) \<or> c = 0x5F \<or> (0x61 \<le> c \<and> c \<le> 0x7A)"

definition inHandleClass :: "16 word \<Rightarrow> bool" where
  "inHandleClass c \<longleftrightarrow> isWordChar c \<or> c = 0x2E \<or> c = 0x2D"

definition matchMention :: "jsstring \<Rightarrow> nat option" where
  "matchMention t =
     (case t of
        [] \<Rightarrow> None
      | c # r \<Rightarrow>
          if c = 0x40 \<and> takeWhile inHandleClass r \<noteq> []
          then Some (Suc (length (takeWhile inHandleClass r)))
          else None)"

text \<open>
  \<open>String.prototype.trim\<close> strips the code units of WhiteSpace and LineTerminator from
  both ends.
\<close>

definition isWhiteSpace :: "16 word \<Rightarrow> bool" where
  "isWhiteSpace c \<longleftrightarrow>
     (0x09 \<le> c \<and> c \<le> 0x0D) \<or> c = 0x20 \<or> c = 0xA0 \<or> c = 0x1680
     \<or> (0x2000 \<le> c \<and> c \<le> 0x200A) \<or> c = 0x2028 \<or> c = 0x2029 \<or> c = 0x202F
     \<or> c = 0x205F \<or> c = 0x3000 \<or> c = 0xFEFF"

definition trim :: "jsstring \<Rightarrow> jsstring" where
  "trim s = rev (dropWhile isWhiteSpace (rev (dropWhile isWhiteSpace s)))"

definition cleanUserMessage :: "jsstring \<Rightarrow> jsstring" where
  "cleanUserMessage msg =
     trim (replaceGlobal matchMention (replaceGlobal matchMarker msg))"

text \<open>
  The call \<open>cleanUserMessage(message)\<close> of the handler, whose argument is whatever the body
  held: on a value that is no string, \<open>msg.replace\<close> is not callable and the call throws
  a TypeError (the text is V8's).
\<close>

definition notAFunction :: jserror where
  "notAFunction = JSError (str ''msg.replace is not a function'')"

fun callCleanUserMessage :: "jsval \<Rightarrow> jserror + jsstring" where
  "callCleanUserMessage (JString s) = Inr (cleanUserMessage s)"
| "callCleanUserMessage v = Inl notAFunction"

section \<open>The prompt\<close>

datatype role = System | User | Assistant

record turn =
  role :: role
  content :: jsstring

definition systemPrompt :: jsstring where
  "systemPrompt = str
    (''Eres ShareUnixIA, un asistente virtual bancario profesional. IMPORTANTE:'' @
     [CHR 0x0A] @
     ''- Pregunta siempre al comenzar el nombre del usuario y no eres un inicio de sesi'' @
     [CHR 0xF3] @ ''n.'' @ [CHR 0x0A] @
     ''-IMPORTANTE: Solo responde a preguntas relacionadas con el banco si te pregunta algo no relaciona a un banco no lo respondas ignoralo.'' @
     [CHR 0x0A] @ ''- No saludes ni digas frases como '' @ [CHR 0x22] @
     ''Estoy listo para ayudarte'' @ [CHR 0x22] @ ''.'' @ [CHR 0x0A] @
     ''- Responde solo lo que se pide, sin saludos ni despedidas.'' @ [CHR 0x0A] @
     ''- No uses etiquetas ni formatos como <think>, HTML o Markdown.'' @ [CHR 0x0A] @
     ''- No repitas respuestas ni uses bloques de c'' @ [CHR 0xF3] @ ''digo.'' @ [CHR 0x0A] @
     ''- Responde en texto plano, en espa'' @ [CHR 0xF1] @
     ''ol neutro, sin palabras extranjeras.'' @ [CHR 0x0A] @ ''- M'' @ [CHR 0xE1] @
     ''ximo 2 oraciones claras y concisas.'' @ [CHR 0x0A] @
     ''- No des explicaciones ni contexto extra.'' @ [CHR 0x0A] @
     ''- Corrige errores ortogr'' @ [CHR 0xE1] @ ''ficos sin mencionarlo.'' @ [CHR 0x0A] @
     ''- No asumas informaci'' @ [CHR 0xF3] @ ''n no preguntada.'' @ [CHR 0x0A] @
     ''- Si se piden instrucciones, usa hasta 5 pasos claros y breves.'' @ [CHR 0x0A] @
     ''- Saluda solo en la primera interacci'' @ [CHR 0xF3] @
     ''n si es necesario, pero evita frases innecesarias.'' @ [CHR 0x0A] @
     ''- No interpretes s'' @ [CHR 0xED] @ ''mbolos especiales como comandos.'')"

definition buildMessagesForTogether :: "turn list \<Rightarrow> jsstring \<Rightarrow> turn list" where
  "buildMessagesForTogether history newMessage =
     \<lparr>role = System, content = systemPrompt\<rparr>
       # map (\<lambda>turn. \<lparr>role = role turn, content = content turn\<rparr>) history
       @ [\<lparr>role = User, content = newMessage\<rparr>]"

section \<open>JSON text and event-stream frames\<close>

text \<open>
  \<open>JSON.stringify\<close> of a string (QuoteJSONString): the two-character escapes, \<open>\uXXXX\<close> in
  lower-case hexadecimal for the other code units below U+0020 and for a surrogate that
  has no partner, every other code unit as it is.
\<close>

definition hexDigit :: "16 word \<Rightarrow> 16 word" where
  "hexDigit d = (if d < 10 then 0x30 + d else 0x57 + d)"

definition unicodeEscape :: "16 word \<Rightarrow> jsstring" where
  "unicodeEscape c =
     [0x5C, 0x75, hexDigit (c div 0x1000), hexDigit (c div 0x100 mod 0x10),
      hexDigit (c div 0x10 mod 0x10), hexDigit (c mod 0x10)]"

definition quoteUnit :: "16 word \<Rightarrow> jsstring" where
  "quoteUnit c =
     (if c = 0x08 then [0x5C, 0x62]
      else if c = 0x09 then [0x5C, 0x74]
      else if c = 0x0A then [0x5C, 0x6E]
      else if c = 0x0C then [0x5C, 0x66]
      else if c = 0x0D then [0x5C, 0x72]
      else if c = 0x22 then [0x5C, 0x22]
      else if c = 0x5C then [0x5C, 0x5C]
      else if c < 0x20 \<or> (0xD800 \<le> c \<and> c \<le> 0xDFFF) then unicodeEscape c
      else [c])"

fun quoteUnits :: "jsstring \<Rightarrow> jsstring" where
  "quoteUnits [] = []"
| "quoteUnits [c] = quoteUnit c"
| "quoteUnits (c # d # ds) =
     (if 0xD800 \<le> c \<and> c \<le> 0xDBFF \<and> 0xDC00 \<le> d \<and> d \<le> 0xDFFF
      then c # d # quoteUnits ds
      else quoteUnit c @ quoteUnits (d # ds))"

definition quoteJSONString :: "jsstring \<Rightarrow> jsstring" where
  "quoteJSONString s = [0x22] @ quoteUnits s @ [0x22]"

text \<open>\<open>JSON.stringify({ name: value })\<close> for an object of one string field.\<close>

definition stringifyField :: "jsstring \<Rightarrow> jsstring \<Rightarrow> jsstring" where
  "stringifyField name v =
     str ''{'' @ quoteJSONString name @ str '':'' @ quoteJSONString v @ str ''}''"

text \<open>The three template literals the handler writes to the stream.\<close>

definition dataFrame :: "jsstring \<Rightarrow> jsstring" where
  "dataFrame c = str ''data: '' @ stringifyField (str ''response'') c @ [0x0A, 0x0A]"

definition doneFrame :: jsstring where
  "doneFrame = str ''data: [DONE]'' @ [0x0A, 0x0A]"

definition errorFrame :: "jsstring \<Rightarrow> jsstring" where
  "errorFrame m =
     str ''event: error'' @ [0x0A] @ str ''data: '' @ stringifyField (str ''error'') m
       @ [0x0A, 0x0A]"

section \<open>The response object\<close>

text \<open>
  What the handler does to \<open>res\<close>: the status code, the headers it sets, whether the
  header is sent, the strings written to the body in order (as they are passed to
  \<open>res.write\<close>, before they are encoded for the wire), and whether the response is
  ended. \<open>res.status(c).json(obj)\<close> sets the code and the JSON content type, sends the
  text of \<open>obj\<close> and ends the response; \<open>res.writeHead\<close> fixes the code and the headers,
  and from then on \<open>res.headersSent\<close> is true. Logging with \<open>console.error\<close> is left
  out.
\<close>

record response =
  statusCode :: nat
  headers :: "(jsstring \<times> jsstring) list"
  headersSent :: bool
  written :: "jsstring list"
  writableEnded :: bool

definition freshResponse :: response where
  "freshResponse =
     \<lparr>statusCode = 200, headers = [], headersSent = False, written = [],
      writableEnded = False\<rparr>"

definition resStatus :: "nat \<Rightarrow> response \<Rightarrow> response" where
  "resStatus c res = res\<lparr>statusCode := c\<rparr>"

definition resJson :: "jsstring \<Rightarrow> response \<Rightarrow> response" where
  "resJson body res =
     res\<lparr>headers := headers res @ [(str ''Content-Type'', str ''application/json; charset=utf-8'')],
         headersSent := True, written := written res @ [body], writableEnded := True\<rparr>"

definition resWriteHead :: "nat \<Rightarrow> (jsstring \<times> jsstring) list \<Rightarrow> response \<Rightarrow> response" where
  "resWriteHead c hs res = res\<lparr>statusCode := c, headers := headers res @ hs, headersSent := True\<rparr>"

definition resWrite :: "jsstring \<Rightarrow> response \<Rightarrow> response" where
  "resWrite s res = res\<lparr>headersSent := True, written := written res @ [s]\<rparr>"

definition resEnd :: "response \<Rightarrow> response" where
  "resEnd res = res\<lparr>headersSent := True, writableEnded := True\<rparr>"

definition eventStreamHeaders :: "(jsstring \<times> jsstring) list" where
  "eventStreamHeaders =
     [(str ''Content-Type'', str ''text/event-stream''),
      (str ''Cache-Control'', str ''no-cache''),
      (str ''Connection'', str ''keep-alive'')]"

definition errorBody :: "jsstring \<Rightarrow> jsstring" where
  "errorBody m = stringifyField (str ''error'') m"

definition busyMessage :: jsstring where
  "busyMessage = str
     (''Ya se est'' @ [CHR 0xE1] @ '' procesando una respuesta para esta sesi'' @ [CHR 0xF3]
        @ ''n. Por favor, espere.'')"

definition missingMessage :: jsstring where
  "missingMessage = str
     (''No se proporcion'' @ [CHR 0xF3] @ '' ning'' @ [CHR 0xFA] @ ''n mensaje.'')"

definition internalErrorMessage :: jsstring where
  "internalErrorMessage =
     str ''Error interno del servidor al procesar la solicitud con Together AI.''"

definition streamErrorMessage :: jsstring where
  "streamErrorMessage = str ''Error desconocido en el stream.''"

section \<open>The session store and the lock set\<close>

text \<open>
  The two module-level variables: \<open>chatMemory\<close>, an object whose own properties map a
  session id to the array of its turns, and \<open>sessionsInProcess\<close>, a \<open>Set\<close> of session ids.
\<close>

record server =
  chatMemory :: "jsstring \<rightharpoonup> turn list"
  sessionsInProcess :: "jsstring set"

definition emptyServer :: server where
  "emptyServer = \<lparr>chatMemory = Map.empty, sessionsInProcess = {}\<rparr>"

text \<open>
  \<open>chatMemory\<close> is an object literal, so \<open>chatMemory[id]\<close> also finds what
  \<open>Object.prototype\<close> defines: for these names the read gives a function (or the prototype
  itself), which is truthy and is no array.
\<close>

definition objectPrototypeKeys :: "jsstring list" where
  "objectPrototypeKeys =
     [str ''constructor'', str ''__defineGetter__'', str ''__defineSetter__'',
      str ''hasOwnProperty'', str ''__lookupGetter__'', str ''__lookupSetter__'',
      str ''isPrototypeOf'', str ''propertyIsEnumerable'', str ''toString'',
      str ''valueOf'', str ''__proto__'', str ''toLocaleString'']"

datatype property = Undefined | Inherited | Own "turn list"

definition memoryLookup :: "server \<Rightarrow> jsstring \<Rightarrow> property" where
  "memoryLookup srv sid =
     (case chatMemory srv sid of
        Some h \<Rightarrow> Own h
      | None \<Rightarrow> if sid \<in> set objectPrototypeKeys then Inherited else Undefined)"

text \<open>
  \<open>buildMessagesForTogether(sessionHistory, cleanedMessage)\<close> as the handler calls it:
  \<open>for (const turn of history)\<close> throws a TypeError on a value that is not iterable.
\<close>

definition notIterable :: jserror where
  "notIterable = JSError (str ''history is not iterable'')"

fun callBuildMessages :: "property \<Rightarrow> jsstring \<Rightarrow> jserror + turn list" where
  "callBuildMessages (Own history) newMessage =
     Inr (buildMessagesForTogether history newMessage)"
| "callBuildMessages p newMessage = Inl notIterable"

text \<open>
  \<open>sessionHistory.push(t)\<close>. \<open>sessionHistory\<close> is the array that \<open>chatMemory[id]\<close> held when
  the handler read it. The handler assigns \<open>chatMemory[id]\<close> only while it is falsy, and an
  array is truthy, so the property still holds that same array when the push runs: the
  push is an update of the property. On a store without the property the array was
  reachable from nowhere else, and the store does not change.
\<close>

definition sessionHistoryPush :: "jsstring \<Rightarrow> turn \<Rightarrow> server \<Rightarrow> server" where
  "sessionHistoryPush sid t srv =
     (case chatMemory srv sid of
        Some h \<Rightarrow> srv\<lparr>chatMemory := (chatMemory srv)(sid \<mapsto> h @ [t])\<rparr>
      | None \<Rightarrow> srv)"

section \<open>The upstream stream\<close>

text \<open>
  A chunk of the completion stream, as far as the handler reads it:
  \<open>chunk.choices\<close>, \<open>chunk.choices[0].delta\<close> and \<open>chunk.choices[0].delta.content\<close>, each
  of which may be missing.
\<close>

datatype delta = Delta (deltaContent: "jsstring option")

datatype choice = Choice (choiceDelta: "delta option")

datatype chunk = Chunk (choices: "choice list option")

text \<open>
  The condition of the loop body,
  \<open>chunk.choices && chunk.choices.length > 0 && chunk.choices[0].delta &&
  chunk.choices[0].delta.content\<close>, with the content it selects.
\<close>

definition chunkContent :: "chunk \<Rightarrow> jsstring option" where
  "chunkContent c =
     (case choices c of
        None \<Rightarrow> None
      | Some [] \<Rightarrow> None
      | Some (first # others) \<Rightarrow>
          (case choiceDelta first of
             None \<Rightarrow> None
           | Some d \<Rightarrow>
               (case deltaContent d of
                  None \<Rightarrow> None
                | Some text \<Rightarrow> if text = [] then None else Some text)))"

section \<open>The request handler\<close>

text \<open>
  The handler is an \<open>async\<close> function: it runs without interruption up to an \<open>await\<close>,
  and goes on when the awaited value arrives. Between two awaits other handler calls
  may run. An \<open>exchange\<close> holds the local variables of a call that is waiting.
\<close>

record exchange =
  currentSessionId :: jsstring
  cleanedMessage :: jsstring
  messagesForTogether :: "turn list"
  streaming :: bool
  accumulatedContent :: jsstring
  res :: response

datatype outcome = Finished response | Awaiting exchange

datatype tried = Returned response | Threw jserror response | Suspended exchange

definition currentSessionIdOf :: "request \<Rightarrow> jsstring" where
  "currentSessionIdOf req =
     (case sessionId req of
        None \<Rightarrow> str ''default''
      | Some s \<Rightarrow> orDefault s (str ''default''))"

text \<open>
  The \<open>try\<close> block up to \<open>await together.chat.completions.create\<close>: the request to the
  completion API is the list \<open>messagesForTogether\<close> of the exchange.
\<close>

definition tryBlock :: "server \<Rightarrow> jsstring \<Rightarrow> jsval \<Rightarrow> response \<Rightarrow> server \<times> tried" where
  "tryBlock srv sid msg r =
     (if \<not> truthy msg
      then (srv, Returned (resJson (errorBody missingMessage) (resStatus 400 r)))
      else
        (case callCleanUserMessage msg of
           Inl e \<Rightarrow> (srv, Threw e r)
         | Inr cleaned \<Rightarrow>
             (let srv' =
                (if memoryLookup srv sid = Undefined
                 then srv\<lparr>chatMemory := (chatMemory srv)(sid \<mapsto> [])\<rparr>
                 else srv)
              in
                (case callBuildMessages (memoryLookup srv' sid) cleaned of
                   Inl e \<Rightarrow> (srv', Threw e r)
                 | Inr msgs \<Rightarrow>
                     (srv', Suspended
                        \<lparr>currentSessionId = sid, cleanedMessage = cleaned,
                         messagesForTogether = msgs, streaming = False,
                         accumulatedContent = [],
                         res = resWriteHead 200 eventStreamHeaders r\<rparr>)))))"

definition catchBlock :: "jserror \<Rightarrow> response \<Rightarrow> response" where
  "catchBlock error r =
     (if \<not> headersSent r
      then resJson (errorBody (orDefault (errorText error) internalErrorMessage))
             (resStatus 500 r)
      else resEnd
             (resWrite (errorFrame (orDefault (errorText error) streamErrorMessage)) r))"

definition finallyBlock :: "jsstring \<Rightarrow> server \<Rightarrow> response \<Rightarrow> server \<times> response" where
  "finallyBlock sid srv r =
     (srv\<lparr>sessionsInProcess := sessionsInProcess srv - {sid}\<rparr>,
      if \<not> writableEnded r then resEnd r else r)"

definition finished :: "server \<times> response \<Rightarrow> server \<times> outcome" where
  "finished p = (fst p, Finished (snd p))"

definition admitted :: "server \<Rightarrow> jsstring \<Rightarrow> jsval \<Rightarrow> server \<times> outcome" where
  "admitted srv sid msg =
     (case tryBlock srv sid msg freshResponse of
        (srv', Returned r) \<Rightarrow> finished (finallyBlock sid srv' r)
      | (srv', Threw e r) \<Rightarrow> finished (finallyBlock sid srv' (catchBlock e r))
      | (srv', Suspended x) \<Rightarrow> (srv', Awaiting x))"

text \<open>From the arrival of the request to the first \<open>await\<close> or to the end of the call.\<close>

definition handlerStart :: "server \<Rightarrow> request \<Rightarrow> server \<times> outcome" where
  "handlerStart srv req =
     (let sid = currentSessionIdOf req in
        if sid \<in> sessionsInProcess srv
        then (srv, Finished (resJson (errorBody busyMessage) (resStatus 429 freshResponse)))
        else admitted (srv\<lparr>sessionsInProcess := insert sid (sessionsInProcess srv)\<rparr>) sid
               (message req))"

text \<open>\<open>create\<close> has resolved with the stream: \<open>let accumulatedContent = ""\<close>, the loop begins.\<close>

definition onCreated :: "exchange \<Rightarrow> exchange" where
  "onCreated x = x\<lparr>streaming := True, accumulatedContent := []\<rparr>"

text \<open>One turn of \<open>for await (const chunk of stream)\<close>.\<close>

definition onChunk :: "chunk \<Rightarrow> exchange \<Rightarrow> exchange" where
  "onChunk c x =
     (case chunkContent c of
        None \<Rightarrow> x
      | Some text \<Rightarrow>
          x\<lparr>accumulatedContent := accumulatedContent x @ text,
            res := resWrite (dataFrame text) (res x)\<rparr>)"

text \<open>The stream has ended: the sentinel, the two pushes, then the \<open>finally\<close> block.\<close>

definition onStreamEnd :: "server \<Rightarrow> exchange \<Rightarrow> server \<times> response" where
  "onStreamEnd srv x =
     (let r = resWrite doneFrame (res x);
          srv1 = sessionHistoryPush (currentSessionId x)
                   \<lparr>role = User, content = cleanedMessage x\<rparr> srv;
          srv2 = sessionHistoryPush (currentSessionId x)
                   \<lparr>role = Assistant, content = trim (accumulatedContent x)\<rparr> srv1
      in finallyBlock (currentSessionId x) srv2 r)"

text \<open>\<open>create\<close> has rejected, or the stream has thrown: \<open>catch\<close>, then \<open>finally\<close>.\<close>

definition onThrow :: "jserror \<Rightarrow> server \<Rightarrow> exchange \<Rightarrow> server \<times> response" where
  "onThrow e srv x = finallyBlock (currentSessionId x) srv (catchBlock e (res x))"

subsection \<open>One request, served to its end\<close>

text \<open>
  What the completion API does for one call: it rejects the call, or it gives a stream
  that yields chunks and then ends or throws.
\<close>

datatype upstream = Rejects jserror | Streams "chunk list" "jserror option"

definition serve :: "server \<Rightarrow> request \<Rightarrow> upstream \<Rightarrow> server \<times> response" where
  "serve srv req up =
     (case handlerStart srv req of
        (srv', Finished r) \<Rightarrow> (srv', r)
      | (srv', Awaiting x) \<Rightarrow>
          (case up of
             Rejects e \<Rightarrow> onThrow e srv' x
           | Streams cs fin \<Rightarrow>
               (let x' = foldl (\<lambda>x c. onChunk c x) (onCreated x) cs in
                  case fin of
                    None \<Rightarrow> onStreamEnd srv' x'
                  | Some e \<Rightarrow> onThrow e srv' x')))"

subsection \<open>Many requests, interleaved at the awaits\<close>

record world =
  store :: server
  running :: "nat \<rightharpoonup> exchange"
  replies :: "nat \<rightharpoonup> response"

definition initialWorld :: world where
  "initialWorld = \<lparr>store = emptyServer, running = Map.empty, replies = Map.empty\<rparr>"

datatype event =
    Arrives nat request
  | UpstreamAccepts nat
  | UpstreamYields nat chunk
  | UpstreamEnds nat
  | UpstreamThrows nat jserror

text \<open>
  One uninterrupted piece of one handler call. The number names the call. An event that
  does not fit the state of its call (a chunk for a call that is not in its loop, a
  second arrival under a number in use) changes nothing.
\<close>

fun step :: "world \<Rightarrow> event \<Rightarrow> world" where
  "step w (Arrives i req) =
     (if running w i \<noteq> None \<or> replies w i \<noteq> None then w
      else
        (case handlerStart (store w) req of
           (srv, Finished r) \<Rightarrow> w\<lparr>store := srv, replies := (replies w)(i \<mapsto> r)\<rparr>
         | (srv, Awaiting x) \<Rightarrow> w\<lparr>store := srv, running := (running w)(i \<mapsto> x)\<rparr>))"
| "step w (UpstreamAccepts i) =
     (case running w i of
        None \<Rightarrow> w
      | Some x \<Rightarrow>
          if streaming x then w else w\<lparr>running := (running w)(i \<mapsto> onCreated x)\<rparr>)"
| "step w (UpstreamYields i c) =
     (case running w i of
        None \<Rightarrow> w
      | Some x \<Rightarrow>
          if streaming x then w\<lparr>running := (running w)(i \<mapsto> onChunk c x)\<rparr> else w)"
| "step w (UpstreamEnds i) =
     (case running w i of
        None \<Rightarrow> w
      | Some x \<Rightarrow>
          if streaming x
          then
            (case onStreamEnd (store w) x of
               (srv, r) \<Rightarrow>
                 w\<lparr>store := srv, running := (running w)(i := None),
                   replies := (replies w)(i \<mapsto> r)\<rparr>)
          else w)"
| "step w (UpstreamThrows i e) =
     (case running w i of
        None \<Rightarrow> w
      | Some x \<Rightarrow>
          (case onThrow e (store w) x of
             (srv, r) \<Rightarrow>
               w\<lparr>store := srv, running := (running w)(i := None),
                 replies := (replies w)(i \<mapsto> r)\<rparr>))"

definition run :: "event list \<Rightarrow> world" where
  "run evs = foldl step initialWorld evs"

text \<open>The history of a session: the turns stored under its id, none before the first.\<close>

definition history :: "server \<Rightarrow> jsstring \<Rightarrow> turn list" where
  "history srv sid = (case chatMemory srv sid of None \<Rightarrow> [] | Some h \<Rightarrow> h)"

section \<open>Notions used in the properties\<close>

subsection \<open>Replies\<close>

text \<open>
  The four shapes a finished response has: the three JSON replies, each with its status
  code and the body \<open>{"error": ...}\<close>, and the event stream with the frames written to it.
  \<open>streamHead\<close> is the response after \<open>res.writeHead\<close>.
\<close>

definition busyReply :: response where
  "busyReply =
     \<lparr>statusCode = 429,
      headers = [(str ''Content-Type'', str ''application/json; charset=utf-8'')],
      headersSent = True, written = [errorBody busyMessage], writableEnded = True\<rparr>"

definition missingReply :: response where
  "missingReply =
     \<lparr>statusCode = 400,
      headers = [(str ''Content-Type'', str ''application/json; charset=utf-8'')],
      headersSent = True, written = [errorBody missingMessage], writableEnded = True\<rparr>"

definition failureReply :: "jsstring \<Rightarrow> response" where
  "failureReply m =
     \<lparr>statusCode = 500,
      headers = [(str ''Content-Type'', str ''application/json; charset=utf-8'')],
      headersSent = True, written = [errorBody m], writableEnded = True\<rparr>"

definition streamHead :: response where
  "streamHead =
     \<lparr>statusCode = 200, headers = eventStreamHeaders, headersSent = True, written = [],
      writableEnded = False\<rparr>"

definition streamReply :: "jsstring list \<Rightarrow> response" where
  "streamReply frames =
     \<lparr>statusCode = 200, headers = eventStreamHeaders, headersSent = True, written = frames,
      writableEnded = True\<rparr>"

subsection \<open>Streams and histories\<close>

text \<open>The deltas of a stream: the contents of the chunks that carry text, in order.\<close>

fun forwarded :: "chunk list \<Rightarrow> jsstring list" where
  "forwarded [] = []"
| "forwarded (c # cs) =
     (case chunkContent c of None \<Rightarrow> forwarded cs | Some text \<Rightarrow> text # forwarded cs)"

text \<open>A chunk of one choice whose delta carries the given text.\<close>

definition textChunk :: "jsstring \<Rightarrow> chunk" where
  "textChunk text = Chunk (Some [Choice (Some (Delta (Some text)))])"

text \<open>The store after the handler has made sure that the session has an array.\<close>

definition opened :: "server \<Rightarrow> jsstring \<Rightarrow> server" where
  "opened srv sid = srv\<lparr>chatMemory := (chatMemory srv)(sid \<mapsto> history srv sid)\<rparr>"

text \<open>A history of pairs, each a user turn followed by an assistant turn.\<close>

fun alternates :: "turn list \<Rightarrow> bool" where
  "alternates [] = True"
| "alternates [t] = False"
| "alternates (u # a # rest) = (role u = User \<and> role a = Assistant \<and> alternates rest)"

text \<open>
  The events of one handler call that nothing interrupts, for a given behaviour of the
  completion API.
\<close>

fun script :: "nat \<Rightarrow> request \<Rightarrow> upstream \<Rightarrow> event list" where
  "script i req (Rejects e) = [Arrives i req, UpstreamThrows i e]"
| "script i req (Streams cs fin) =
     Arrives i req # UpstreamAccepts i # map (UpstreamYields i) cs
       @ [case fin of None \<Rightarrow> UpstreamEnds i | Some e \<Rightarrow> UpstreamThrows i e]"

subsection \<open>The sanitizer, described\<close>

text \<open>The expression matches somewhere in the string.\<close>

fun containsMatch :: "(jsstring \<Rightarrow> nat option) \<Rightarrow> jsstring \<Rightarrow> bool" where
  "containsMatch m [] = False"
| "containsMatch m (c # cs) = (m (c # cs) \<noteq> None \<or> containsMatch m cs)"

text \<open>The string begins with a member of the class \<open>[\w.-]\<close>.\<close>

definition startsInClass :: "jsstring \<Rightarrow> bool" where
  "startsInClass t \<longleftrightarrow> (case t of [] \<Rightarrow> False | c # r \<Rightarrow> inHandleClass c)"

text \<open>
  Position \<open>k\<close> of \<open>s\<close> lies inside the match that the expression finds at some position
  up to \<open>k\<close>.
\<close>

definition reached :: "(jsstring \<Rightarrow> nat option) \<Rightarrow> jsstring \<Rightarrow> nat \<Rightarrow> bool" where
  "reached m s k \<longleftrightarrow> (\<exists>j\<le>k. \<exists>n. m (drop j s) = Some n \<and> k < j + n)"

text \<open>
  The sanitizer in the words of its description. Two code units are the same letter
  when they are equal or one is the other written in the other case; the letters of
  the labels are the ASCII letters and U+00F3, whose capital is U+00D3. An occurrence of
  a role marker in \<open>s\<close> at position \<open>i\<close> is a piece of \<open>s\<close>, of length \<open>n\<close>, that is one of
  the labels letter by letter, whatever the case of each letter. An occurrence of a
  mention is an \<open>@\<close> followed by one or more members of \<open>[\w.-]\<close>. A position is covered
  when it lies inside an occurrence, and \<open>withoutOccurrences\<close> keeps the positions that
  are not covered.
\<close>

definition otherCase :: "16 word \<Rightarrow> 16 word" where
  "otherCase c =
     (if 0x41 \<le> c \<and> c \<le> 0x5A then c + 0x20
      else if 0x61 \<le> c \<and> c \<le> 0x7A then c - 0x20
      else if c = 0xD3 then 0xF3
      else if c = 0xF3 then 0xD3
      else c)"

definition sameLetter :: "16 word \<Rightarrow> 16 word \<Rightarrow> bool" where
  "sameLetter a b \<longleftrightarrow> a = b \<or> a = otherCase b"

definition markerOccurs :: "jsstring \<Rightarrow> nat \<Rightarrow> nat \<Rightarrow> bool" where
  "markerOccurs s i n \<longleftrightarrow>
     (\<exists>m\<in>set roleMarkers. n = length m \<and> i + n \<le> length s
        \<and> list_all2 sameLetter (take n (drop i s)) m)"

definition mentionOccurs :: "jsstring \<Rightarrow> nat \<Rightarrow> nat \<Rightarrow> bool" where
  "mentionOccurs s i n \<longleftrightarrow>
     2 \<le> n \<and> i + n \<le> length s \<and> s ! i = 0x40
       \<and> (\<forall>j\<in>{Suc i..<i + n}. inHandleClass (s ! j))"

definition covered :: "(jsstring \<Rightarrow> nat \<Rightarrow> nat \<Rightarrow> bool) \<Rightarrow> jsstring \<Rightarrow> nat \<Rightarrow> bool" where
  "covered occ s k \<longleftrightarrow> (\<exists>i\<in>{..k}. \<exists>n\<in>{..length s}. occ s i n \<and> k < i + n)"

definition withoutOccurrences :: "(jsstring \<Rightarrow> nat \<Rightarrow> nat \<Rightarrow> bool) \<Rightarrow> jsstring \<Rightarrow> jsstring" where
  "withoutOccurrences occ s = map ((!) s) (filter (\<lambda>k. \<not> covered occ s k) [0..<length s])"

subsection \<open>Calls in flight\<close>

text \<open>
  Every call that is waiting holds the lock of its session, its session has an array in
  the store, and no other waiting call has the same session.
\<close>

definition locksHeld :: "world \<Rightarrow> bool" where
  "locksHeld w \<longleftrightarrow>
     (\<forall>i x. running w i = Some x \<longrightarrow>
        currentSessionId x \<in> sessionsInProcess (store w)
        \<and> chatMemory (store w) (currentSessionId x) \<noteq> None
        \<and> (\<forall>j y. running w j = Some y \<and> currentSessionId y = currentSessionId x \<longrightarrow> j = i))"

section \<open>Properties of the handler\<close>

lemma handlerStart_busy:
  "currentSessionIdOf req \<in> sessionsInProcess srv \<Longrightarrow>
     handlerStart srv req = (srv, Finished busyReply)"
  by (simp add: handlerStart_def busyReply_def resJson_def resStatus_def freshResponse_def)

lemma handlerStart_idle:
  "currentSessionIdOf req \<notin> sessionsInProcess srv \<Longrightarrow>
     handlerStart srv req =
       admitted (srv\<lparr>sessionsInProcess := insert (currentSessionIdOf req) (sessionsInProcess srv)\<rparr>)
         (currentSessionIdOf req) (message req)"
  by (simp add: handlerStart_def Let_def)

lemma tryBlock_locks:
  "sessionsInProcess (fst (tryBlock srv sid msg r)) = sessionsInProcess srv"
  by (simp add: tryBlock_def Let_def split: sum.splits)

lemma tryBlock_Suspended:
  "tryBlock srv sid msg r = (srv', Suspended x) \<Longrightarrow>
     currentSessionId x = sid \<and> sessionsInProcess srv' = sessionsInProcess srv"
  by (auto simp: tryBlock_def Let_def split: if_splits sum.splits)

lemma admitted_Awaiting:
  "admitted srv sid msg = (srv', Awaiting x) \<Longrightarrow>
     currentSessionId x = sid \<and> sessionsInProcess srv' = sessionsInProcess srv"
  by (auto simp: admitted_def finished_def split: prod.splits tried.splits
      dest: tryBlock_Suspended)

text \<open>
  C2. A request whose session id is in the lock set is answered with status 429 and a
  JSON error body; the store and the lock set are as before, nothing but that body is
  written, and this is the whole of the request whatever the completion API would do.
  A request whose session id is not in the lock set runs the rest of the handler in
  the state that has the id in the lock set; the \<open>try\<close> block leaves the lock set as it
  finds it, and the id is in the lock set whenever the call is left waiting.
\<close>

theorem busy_session_rejected:
  "(currentSessionIdOf req \<in> sessionsInProcess srv \<longrightarrow>
      handlerStart srv req = (srv, Finished busyReply) \<and> serve srv req up = (srv, busyReply))
   \<and> (currentSessionIdOf req \<notin> sessionsInProcess srv \<longrightarrow>
      handlerStart srv req =
        admitted
          (srv\<lparr>sessionsInProcess := insert (currentSessionIdOf req) (sessionsInProcess srv)\<rparr>)
          (currentSessionIdOf req) (message req)
      \<and> sessionsInProcess
           (fst (tryBlock
              (srv\<lparr>sessionsInProcess := insert (currentSessionIdOf req) (sessionsInProcess srv)\<rparr>)
              (currentSessionIdOf req) (message req) freshResponse))
          = insert (currentSessionIdOf req) (sessionsInProcess srv)
      \<and> (\<forall>srv' x. handlerStart srv req = (srv', Awaiting x) \<longrightarrow>
            currentSessionId x = currentSessionIdOf req
            \<and> currentSessionIdOf req \<in> sessionsInProcess srv'))"
proof (intro conjI impI allI)
  assume busy: "currentSessionIdOf req \<in> sessionsInProcess srv"
  show "handlerStart srv req = (srv, Finished busyReply)"
    by (rule handlerStart_busy [OF busy])
  then show "serve srv req up = (srv, busyReply)"
    by (simp add: serve_def)
next
  assume idle: "currentSessionIdOf req \<notin> sessionsInProcess srv"
  show "handlerStart srv req =
        admitted
          (srv\<lparr>sessionsInProcess := insert (currentSessionIdOf req) (sessionsInProcess srv)\<rparr>)
          (currentSessionIdOf req) (message req)"
    by (rule handlerStart_idle [OF idle])
  show "sessionsInProcess
           (fst (tryBlock
              (srv\<lparr>sessionsInProcess := insert (currentSessionIdOf req) (sessionsInProcess srv)\<rparr>)
              (currentSessionIdOf req) (message req) freshResponse))
          = insert (currentSessionIdOf req) (sessionsInProcess srv)"
    by (simp add: tryBlock_locks)
  fix srv' x
  assume "handlerStart srv req = (srv', Awaiting x)"
  then have "admitted
          (srv\<lparr>sessionsInProcess := insert (currentSessionIdOf req) (sessionsInProcess srv)\<rparr>)
          (currentSessionIdOf req) (message req) = (srv', Awaiting x)"
    by (simp add: handlerStart_idle [OF idle])
  from admitted_Awaiting [OF this]
  show "currentSessionId x = currentSessionIdOf req"
    and "currentSessionIdOf req \<in> sessionsInProcess srv'"
    by simp_all
qed

theorem busy_session_rejected_witness:
  "handlerStart \<lparr>chatMemory = Map.empty, sessionsInProcess = {str ''s1''}\<rparr>
     \<lparr>message = JString (str ''hola''), sessionId = Some (str ''s1'')\<rparr>
     = (\<lparr>chatMemory = Map.empty, sessionsInProcess = {str ''s1''}\<rparr>, Finished busyReply)
   \<and> handlerStart \<lparr>chatMemory = Map.empty, sessionsInProcess = {}\<rparr>
       \<lparr>message = JString (str ''hola''), sessionId = Some (str ''s1'')\<rparr>
     = admitted \<lparr>chatMemory = Map.empty, sessionsInProcess = {str ''s1''}\<rparr>
         (str ''s1'') (JString (str ''hola''))"
  using busy_session_rejected
      [of "\<lparr>message = JString (str ''hola''), sessionId = Some (str ''s1'')\<rparr>"
          "\<lparr>chatMemory = Map.empty, sessionsInProcess = {str ''s1''}\<rparr>"]
    busy_session_rejected
      [of "\<lparr>message = JString (str ''hola''), sessionId = Some (str ''s1'')\<rparr>"
          "\<lparr>chatMemory = Map.empty, sessionsInProcess = {}\<rparr>"]
  by (simp add: currentSessionIdOf_def orDefault_def str_def)

lemma history_opened [simp]: "history (opened srv sid) = history srv"
  by (rule ext) (simp add: opened_def history_def)

lemma handlerStart_streams:
  assumes idle: "currentSessionIdOf req \<notin> sessionsInProcess srv"
    and key: "memoryLookup srv (currentSessionIdOf req) \<noteq> Inherited"
    and msg: "message req = JString s" "s \<noteq> []"
  shows "handlerStart srv req =
     ((opened srv (currentSessionIdOf req))
        \<lparr>sessionsInProcess := insert (currentSessionIdOf req) (sessionsInProcess srv)\<rparr>,
      Awaiting
        \<lparr>currentSessionId = currentSessionIdOf req, cleanedMessage = cleanUserMessage s,
         messagesForTogether =
           buildMessagesForTogether (history srv (currentSessionIdOf req)) (cleanUserMessage s),
         streaming = False, accumulatedContent = [], res = streamHead\<rparr>)"
proof (cases "chatMemory srv (currentSessionIdOf req)")
  case None
  with key have "memoryLookup srv (currentSessionIdOf req) = Undefined"
    by (simp add: memoryLookup_def split: if_splits)
  with None idle msg show ?thesis
    by (simp add: handlerStart_def Let_def admitted_def tryBlock_def memoryLookup_def
        opened_def history_def streamHead_def resWriteHead_def freshResponse_def)
next
  case (Some h)
  then have "memoryLookup srv (currentSessionIdOf req) = Own h"
    by (simp add: memoryLookup_def)
  moreover have "(chatMemory srv)(currentSessionIdOf req \<mapsto> h) = chatMemory srv"
    using Some by (simp add: map_upd_triv)
  ultimately show ?thesis using Some idle msg
    by (simp add: handlerStart_def Let_def admitted_def tryBlock_def memoryLookup_def
        opened_def history_def streamHead_def resWriteHead_def freshResponse_def)
qed

lemma relay_loop:
  "headersSent (res x) \<Longrightarrow>
   foldl (\<lambda>x c. onChunk c x) x cs =
     x\<lparr>accumulatedContent := accumulatedContent x @ concat (forwarded cs),
       res := (res x)\<lparr>written := written (res x) @ map dataFrame (forwarded cs)\<rparr>\<rparr>"
proof (induction cs arbitrary: x)
  case Nil
  then show ?case by simp
next
  case (Cons c cs)
  show ?case
  proof (cases "chunkContent c")
    case None
    with Cons show ?thesis by (simp add: onChunk_def)
  next
    case (Some t)
    have hs: "headersSent (res (onChunk c x))"
      by (simp add: onChunk_def Some resWrite_def)
    show ?thesis
      using Cons.prems by (simp add: Cons.IH [OF hs] Some) (simp add: onChunk_def Some resWrite_def)
  qed
qed

lemma serve_streams:
  assumes idle: "currentSessionIdOf req \<notin> sessionsInProcess srv"
    and key: "memoryLookup srv (currentSessionIdOf req) \<noteq> Inherited"
    and msg: "message req = JString s" "s \<noteq> []"
  shows "serve srv req (Streams cs fin) =
    (let x = \<lparr>currentSessionId = currentSessionIdOf req, cleanedMessage = cleanUserMessage s,
         messagesForTogether =
           buildMessagesForTogether (history srv (currentSessionIdOf req)) (cleanUserMessage s),
         streaming = True, accumulatedContent = concat (forwarded cs),
         res = streamHead\<lparr>written := map dataFrame (forwarded cs)\<rparr>\<rparr>;
         srv' = (opened srv (currentSessionIdOf req))
        \<lparr>sessionsInProcess := insert (currentSessionIdOf req) (sessionsInProcess srv)\<rparr>
     in case fin of None \<Rightarrow> onStreamEnd srv' x | Some e \<Rightarrow> onThrow e srv' x)"
proof -
  let ?x = "\<lparr>currentSessionId = currentSessionIdOf req, cleanedMessage = cleanUserMessage s,
         messagesForTogether =
           buildMessagesForTogether (history srv (currentSessionIdOf req)) (cleanUserMessage s),
         streaming = True, accumulatedContent = [], res = streamHead\<rparr>"
  have "headersSent (res ?x)"
    by (simp add: streamHead_def)
  from relay_loop [OF this, of cs]
  have "foldl (\<lambda>x c. onChunk c x) ?x cs =
      ?x\<lparr>accumulatedContent := concat (forwarded cs),
         res := streamHead\<lparr>written := map dataFrame (forwarded cs)\<rparr>\<rparr>"
    by (simp add: streamHead_def)
  then show ?thesis
    by (simp add: serve_def handlerStart_streams [OF assms] onCreated_def Let_def
        split: option.split)
qed

lemma serve_success_reply:
  assumes idle: "currentSessionIdOf req \<notin> sessionsInProcess srv"
    and key: "memoryLookup srv (currentSessionIdOf req) \<noteq> Inherited"
    and msg: "message req = JString s" "s \<noteq> []"
  shows "snd (serve srv req (Streams cs None)) =
     streamReply (map dataFrame (forwarded cs) @ [doneFrame])"
  by (simp add: serve_streams [OF assms] onStreamEnd_def finallyBlock_def Let_def
      streamHead_def streamReply_def resWrite_def resEnd_def)

lemma serve_success_history:
  assumes idle: "currentSessionIdOf req \<notin> sessionsInProcess srv"
    and key: "memoryLookup srv (currentSessionIdOf req) \<noteq> Inherited"
    and msg: "message req = JString s" "s \<noteq> []"
  shows "history (fst (serve srv req (Streams cs None))) =
     (history srv)(currentSessionIdOf req :=
        history srv (currentSessionIdOf req)
          @ [\<lparr>role = User, content = cleanUserMessage s\<rparr>,
             \<lparr>role = Assistant, content = trim (concat (forwarded cs))\<rparr>])"
  by (rule ext)
    (simp add: serve_streams [OF assms] onStreamEnd_def finallyBlock_def Let_def
      sessionHistoryPush_def opened_def history_def)

lemma serve_success_locks:
  assumes idle: "currentSessionIdOf req \<notin> sessionsInProcess srv"
    and key: "memoryLookup srv (currentSessionIdOf req) \<noteq> Inherited"
    and msg: "message req = JString s" "s \<noteq> []"
  shows "sessionsInProcess (fst (serve srv req (Streams cs None))) = sessionsInProcess srv"
  using idle
  by (simp add: serve_streams [OF assms] onStreamEnd_def finallyBlock_def Let_def
      sessionHistoryPush_def opened_def history_def)

lemma history_locks [simp]:
  "history (srv\<lparr>sessionsInProcess := S\<rparr>) = history srv"
  by (rule ext) (simp add: history_def)

lemma history_finallyBlock [simp]:
  "history (fst (finallyBlock sid srv r)) = history srv"
  by (simp add: finallyBlock_def)

lemma history_onThrow [simp]:
  "history (fst (onThrow e srv x)) = history srv"
  by (simp add: onThrow_def)

lemma history_tryBlock [simp]:
  "history (fst (tryBlock srv sid msg r)) = history srv"
  by (rule ext)
    (auto simp: tryBlock_def Let_def history_def memoryLookup_def
      split: sum.splits option.splits if_splits)

lemma history_admitted [simp]:
  "history (fst (admitted srv sid msg)) = history srv"
proof -
  obtain srv' t where t: "tryBlock srv sid msg freshResponse = (srv', t)"
    by (cases "tryBlock srv sid msg freshResponse")
  have "history srv' = history srv"
    using history_tryBlock [of srv sid msg freshResponse] by (simp add: t)
  then show ?thesis
    by (cases t) (simp_all add: admitted_def t finished_def)
qed

lemma history_handlerStart [simp]:
  "history (fst (handlerStart srv req)) = history srv"
  by (simp add: handlerStart_def Let_def)

lemma history_push:
  "history (sessionHistoryPush sid t srv) =
     (case chatMemory srv sid of
        None \<Rightarrow> history srv
      | Some h \<Rightarrow> (history srv)(sid := h @ [t]))"
  by (rule ext) (simp add: sessionHistoryPush_def history_def split: option.splits)

lemma history_onStreamEnd:
  "history (fst (onStreamEnd srv x)) =
     (case chatMemory srv (currentSessionId x) of
        None \<Rightarrow> history srv
      | Some h \<Rightarrow>
          (history srv)(currentSessionId x :=
             h @ [\<lparr>role = User, content = cleanedMessage x\<rparr>,
                  \<lparr>role = Assistant, content = trim (accumulatedContent x)\<rparr>]))"
  by (rule ext)
    (simp add: onStreamEnd_def Let_def sessionHistoryPush_def history_def
      split: option.splits)

lemma serve_failure_history:
  "history (fst (serve srv req (Rejects e))) = history srv"
  "history (fst (serve srv req (Streams cs (Some e)))) = history srv"
proof -
  obtain srv' out where h: "handlerStart srv req = (srv', out)"
    by (cases "handlerStart srv req")
  have eq: "history srv' = history srv"
    using history_handlerStart [of srv req] by (simp add: h)
  show "history (fst (serve srv req (Rejects e))) = history srv"
    by (cases out) (simp_all add: serve_def h eq)
  show "history (fst (serve srv req (Streams cs (Some e)))) = history srv"
    by (cases out) (simp_all add: serve_def h eq Let_def)
qed

lemma history_step:
  "history (store (step w ev)) sid = history (store w) sid
   \<or> (\<exists>u a. history (store (step w ev)) sid =
         history (store w) sid
           @ [\<lparr>role = User, content = u\<rparr>, \<lparr>role = Assistant, content = a\<rparr>])"
proof (cases ev)
  case (Arrives i req)
  obtain srv' out where h: "handlerStart (store w) req = (srv', out)"
    by (cases "handlerStart (store w) req")
  have eq: "history srv' = history (store w)"
    using history_handlerStart [of "store w" req] by (simp add: h)
  show ?thesis
    by (cases out) (simp_all add: Arrives h eq)
next
  case (UpstreamAccepts i)
  then show ?thesis by (simp split: option.splits)
next
  case (UpstreamYields i c)
  then show ?thesis by (simp split: option.splits)
next
  case (UpstreamEnds i)
  show ?thesis
  proof (cases "running w i")
    case None
    then show ?thesis by (simp add: UpstreamEnds)
  next
    case (Some x)
    obtain srv' r where h: "onStreamEnd (store w) x = (srv', r)"
      by (cases "onStreamEnd (store w) x")
    have eq: "history srv' =
       (case chatMemory (store w) (currentSessionId x) of
        None \<Rightarrow> history (store w)
      | Some h \<Rightarrow>
          (history (store w))(currentSessionId x :=
             h @ [\<lparr>role = User, content = cleanedMessage x\<rparr>,
                  \<lparr>role = Assistant, content = trim (accumulatedContent x)\<rparr>]))"
      using history_onStreamEnd [of "store w" x] by (simp add: h)
    have pt: "history srv' sid = history (store w) sid
       \<or> history srv' sid =
           history (store w) sid
             @ [\<lparr>role = User, content = cleanedMessage x\<rparr>,
                \<lparr>role = Assistant, content = trim (accumulatedContent x)\<rparr>]"
    proof (cases "chatMemory (store w) (currentSessionId x)")
      case None
      then show ?thesis by (simp add: eq)
    next
      case (Some h)
      then have "history (store w) (currentSessionId x) = h"
        by (simp add: history_def)
      then show ?thesis
        by (cases "sid = currentSessionId x") (simp_all add: eq Some)
    qed
    show ?thesis
    proof (cases "streaming x")
      case True
      with pt show ?thesis
        by (auto simp: UpstreamEnds Some h)
    next
      case False
      then show ?thesis
        by (simp add: UpstreamEnds Some)
    qed
  qed
next
  case (UpstreamThrows i e)
  show ?thesis
  proof (cases "running w i")
    case None
    then show ?thesis by (simp add: UpstreamThrows)
  next
    case (Some x)
    obtain srv' r where h: "onThrow e (store w) x = (srv', r)"
      by (cases "onThrow e (store w) x")
    have eq: "history srv' = history (store w)"
      using history_onThrow [of e "store w" x] by (simp add: h)
    show ?thesis
      by (simp add: UpstreamThrows Some h eq)
  qed
qed

lemma alternates_append:
  "alternates h \<Longrightarrow> role u = User \<Longrightarrow> role a = Assistant \<Longrightarrow> alternates (h @ [u, a])"
  by (induction h rule: alternates.induct) simp_all

lemma alternates_even: "alternates h \<Longrightarrow> even (length h)"
  by (induction h rule: alternates.induct) simp_all

lemma run_snoc: "run (evs @ [ev]) = step (run evs) ev"
  by (simp add: run_def)

lemma alternates_run: "alternates (history (store (run evs)) sid)"
proof (induction evs rule: rev_induct)
  case Nil
  then show ?case
    by (simp add: run_def initialWorld_def emptyServer_def history_def)
next
  case (snoc ev evs)
  from history_step [of "run evs" ev sid] show ?case
  proof
    assume "history (store (step (run evs) ev)) sid = history (store (run evs)) sid"
    with snoc show ?thesis by (simp add: run_snoc)
  next
    assume "\<exists>u a. history (store (step (run evs) ev)) sid =
         history (store (run evs)) sid
           @ [\<lparr>role = User, content = u\<rparr>, \<lparr>role = Assistant, content = a\<rparr>]"
    then obtain u a where "history (store (step (run evs) ev)) sid =
         history (store (run evs)) sid
           @ [\<lparr>role = User, content = u\<rparr>, \<lparr>role = Assistant, content = a\<rparr>]"
      by blast
    with snoc show ?thesis
      by (simp add: run_snoc alternates_append)
  qed
qed

lemma memoryLookup_locks [simp]:
  "memoryLookup (srv\<lparr>sessionsInProcess := S\<rparr>) sid = memoryLookup srv sid"
  by (simp add: memoryLookup_def)

lemma serve_missing:
  assumes idle: "currentSessionIdOf req \<notin> sessionsInProcess srv"
    and falsy: "\<not> truthy (message req)"
  shows "serve srv req up = (srv, missingReply)"
proof -
  have "insert (currentSessionIdOf req) (sessionsInProcess srv) - {currentSessionIdOf req}
      = sessionsInProcess srv"
    using idle by auto
  then show ?thesis
    using idle falsy
    by (simp add: serve_def handlerStart_def Let_def admitted_def tryBlock_def finished_def
        finallyBlock_def missingReply_def resJson_def resStatus_def freshResponse_def)
qed

lemma serve_throws_early:
  assumes idle: "currentSessionIdOf req \<notin> sessionsInProcess srv"
    and truthy: "truthy (message req)"
    and bad: "(\<forall>s. message req \<noteq> JString s)
       \<or> memoryLookup srv (currentSessionIdOf req) = Inherited"
  shows "\<exists>e. serve srv req up = (srv, failureReply (orDefault (errorText e) internalErrorMessage))"
proof -
  have locks: "insert (currentSessionIdOf req) (sessionsInProcess srv) - {currentSessionIdOf req}
      = sessionsInProcess srv"
    using idle by auto
  show ?thesis
  proof (cases "\<exists>s. message req = JString s")
    case False
    then have "callCleanUserMessage (message req) = Inl notAFunction"
      by (cases "message req") simp_all
    with idle truthy locks
    have "serve srv req up = (srv, failureReply (orDefault (errorText notAFunction) internalErrorMessage))"
      by (simp add: serve_def handlerStart_def Let_def admitted_def tryBlock_def finished_def
          finallyBlock_def catchBlock_def failureReply_def orDefault_def resJson_def
          resStatus_def freshResponse_def)
    then show ?thesis ..
  next
    case True
    then obtain s where s: "message req = JString s" by blast
    with bad have inh: "memoryLookup srv (currentSessionIdOf req) = Inherited" by simp
    with idle truthy locks s
    have "serve srv req up = (srv, failureReply (orDefault (errorText notIterable) internalErrorMessage))"
      by (simp add: serve_def handlerStart_def Let_def admitted_def tryBlock_def finished_def
          finallyBlock_def catchBlock_def failureReply_def orDefault_def resJson_def
          resStatus_def freshResponse_def)
    then show ?thesis ..
  qed
qed

lemma serve_throws_late:
  assumes idle: "currentSessionIdOf req \<notin> sessionsInProcess srv"
    and key: "memoryLookup srv (currentSessionIdOf req) \<noteq> Inherited"
    and msg: "message req = JString s" "s \<noteq> []"
  shows "snd (serve srv req (Rejects e)) =
       streamReply [errorFrame (orDefault (errorText e) streamErrorMessage)]"
    and "snd (serve srv req (Streams cs (Some e))) =
       streamReply (map dataFrame (forwarded cs)
         @ [errorFrame (orDefault (errorText e) streamErrorMessage)])"
proof -
  show "snd (serve srv req (Rejects e)) =
       streamReply [errorFrame (orDefault (errorText e) streamErrorMessage)]"
    by (simp add: serve_def handlerStart_streams [OF assms] Let_def
      onThrow_def catchBlock_def finallyBlock_def streamHead_def streamReply_def
      orDefault_def resWrite_def resEnd_def)
  show "snd (serve srv req (Streams cs (Some e))) =
       streamReply (map dataFrame (forwarded cs)
         @ [errorFrame (orDefault (errorText e) streamErrorMessage)])"
    by (simp add: serve_streams [OF assms] Let_def
      onThrow_def catchBlock_def finallyBlock_def streamHead_def streamReply_def
      orDefault_def resWrite_def resEnd_def)
qed

lemma serve_status:
  "statusCode (snd (serve srv req up)) =
     (if currentSessionIdOf req \<in> sessionsInProcess srv then 429
      else if \<not> truthy (message req) then 400
      else if (\<forall>s. message req \<noteq> JString s)
           \<or> memoryLookup srv (currentSessionIdOf req) = Inherited then 500
      else 200)"
proof -
  consider (busy) "currentSessionIdOf req \<in> sessionsInProcess srv"
    | (missing) "currentSessionIdOf req \<notin> sessionsInProcess srv" "\<not> truthy (message req)"
    | (early) "currentSessionIdOf req \<notin> sessionsInProcess srv" "truthy (message req)"
        "(\<forall>s. message req \<noteq> JString s)
           \<or> memoryLookup srv (currentSessionIdOf req) = Inherited"
    | (stream) s where "currentSessionIdOf req \<notin> sessionsInProcess srv" "truthy (message req)"
        "message req = JString s" "memoryLookup srv (currentSessionIdOf req) \<noteq> Inherited"
    by blast
  then show ?thesis
  proof cases
    case busy
    then show ?thesis
      by (simp add: serve_def handlerStart_busy busyReply_def)
  next
    case missing
    then show ?thesis
      by (simp add: serve_missing missingReply_def)
  next
    case early
    from serve_throws_early [OF early, of up] early show ?thesis
      by (auto simp: failureReply_def)
  next
    case stream
    then have ne: "s \<noteq> []" by simp
    note a = stream(1) stream(4) stream(3) ne
    show ?thesis
    proof (cases up)
      case (Rejects e)
      with serve_throws_late(1) [OF a, of e] stream show ?thesis
        by (simp add: streamReply_def)
    next
      case (Streams cs fin)
      show ?thesis
      proof (cases fin)
        case None
        with serve_success_reply [OF a, of cs] stream Streams show ?thesis
          by (simp add: streamReply_def)
      next
        case (Some e)
        with serve_throws_late(2) [OF a, of cs e] stream Streams show ?thesis
          by (simp add: streamReply_def)
      qed
    qed
  qed
qed

text \<open>
  The two views of a request agree: the events of a call that nothing interrupts take
  the world to the state and the reply that \<open>serve\<close> computes.
\<close>

lemma streaming_onChunk [simp]: "streaming (onChunk c x) = streaming x"
  by (simp add: onChunk_def split: option.splits)

lemma handlerStart_not_streaming:
  "handlerStart srv req = (srv', Awaiting x) \<Longrightarrow> \<not> streaming x"
  by (auto simp: handlerStart_def Let_def admitted_def finished_def tryBlock_def
      split: if_splits sum.splits prod.splits tried.splits)

lemma yields_foldl:
  "running w i = Some x \<Longrightarrow> streaming x \<Longrightarrow>
     foldl step w (map (UpstreamYields i) cs)
       = w\<lparr>running := (running w)(i \<mapsto> foldl (\<lambda>x c. onChunk c x) x cs)\<rparr>"
proof (induction cs arbitrary: w x)
  case Nil
  then have "(running w)(i \<mapsto> x) = running w"
    by (simp add: map_upd_triv)
  then show ?case by simp
next
  case (Cons c cs)
  let ?w = "w\<lparr>running := (running w)(i \<mapsto> onChunk c x)\<rparr>"
  let ?y = "foldl (\<lambda>x c. onChunk c x) (onChunk c x) cs"
  have hot: "running ?w i = Some (onChunk c x)" "streaming (onChunk c x)"
    using Cons.prems by simp_all
  have "foldl step w (map (UpstreamYields i) (c # cs))
      = foldl step (step w (UpstreamYields i c)) (map (UpstreamYields i) cs)"
    by simp
  also have "step w (UpstreamYields i c) = ?w"
    using Cons.prems by simp
  also have "foldl step ?w (map (UpstreamYields i) cs)
      = ?w\<lparr>running := (running ?w)(i \<mapsto> ?y)\<rparr>"
    using hot by (rule Cons.IH)
  also have "\<dots> = w\<lparr>running := (running w)(i \<mapsto> ?y)\<rparr>"
    by simp
  also have "?y = foldl (\<lambda>x c. onChunk c x) x (c # cs)"
    by simp
  finally show ?case .
qed

lemma idle_call_ignores:
  "running w i = None \<Longrightarrow>
     step w (UpstreamAccepts i) = w \<and> step w (UpstreamYields i c) = w
       \<and> step w (UpstreamEnds i) = w \<and> step w (UpstreamThrows i e) = w"
  by simp

lemma yields_ignored:
  "running w i = None \<Longrightarrow> foldl step w (map (UpstreamYields i) cs) = w"
  by (induction cs) simp_all

lemma rest_ignored:
  assumes "running w i = None"
  shows "foldl step w (tl (script i req up)) = w"
proof (cases up)
  case (Rejects e)
  with assms show ?thesis by simp
next
  case (Streams cs fin)
  have y: "foldl step w (map (UpstreamYields i) cs) = w"
    by (rule yields_ignored [OF assms])
  show ?thesis
    using assms by (cases fin) (simp_all add: Streams y)
qed

lemma script_first: "script i req up = Arrives i req # tl (script i req up)"
  by (cases up) simp_all

lemma run_script:
  assumes fresh: "running w i = None" "replies w i = None"
  shows "foldl step w (script i req up)
     = w\<lparr>store := fst (serve (store w) req up),
         replies := (replies w)(i \<mapsto> snd (serve (store w) req up))\<rparr>"
proof -
  obtain srv' out where start: "handlerStart (store w) req = (srv', out)"
    by (cases "handlerStart (store w) req")
  show ?thesis
  proof (cases out)
    case (Finished r)
    let ?w = "w\<lparr>store := srv', replies := (replies w)(i \<mapsto> r)\<rparr>"
    have first: "step w (Arrives i req) = ?w"
      using fresh by (simp add: start Finished)
    have idle: "running ?w i = None"
      using fresh by simp
    have "foldl step w (script i req up) = foldl step (step w (Arrives i req)) (tl (script i req up))"
      by (subst script_first) simp
    also have "\<dots> = ?w"
      by (simp only: first rest_ignored [OF idle])
    finally have "foldl step w (script i req up) = ?w" .
    then show ?thesis
      by (simp add: serve_def start Finished)
  next
    case (Awaiting x)
    let ?w = "w\<lparr>store := srv', running := (running w)(i \<mapsto> x)\<rparr>"
    have first: "step w (Arrives i req) = ?w"
      using fresh by (simp add: start Awaiting)
    have cold: "\<not> streaming x"
      using start Awaiting by (auto dest: handlerStart_not_streaming)
    have gone: "(running w)(i := None) = running w"
      using fresh by (simp add: fun_upd_idem_iff)
    show ?thesis
    proof (cases up)
      case (Rejects e)
      obtain s r where t: "onThrow e srv' x = (s, r)"
        by (cases "onThrow e srv' x")
      show ?thesis
        using fresh by (simp add: Rejects start Awaiting serve_def t gone)
    next
      case (Streams cs fin)
      let ?x = "foldl (\<lambda>x c. onChunk c x) (onCreated x) cs"
      let ?v = "?w\<lparr>running := (running ?w)(i \<mapsto> onCreated x)\<rparr>"
      have second: "step ?w (UpstreamAccepts i) = ?v"
        using cold by simp
      have "foldl step ?v (map (UpstreamYields i) cs)
          = ?v\<lparr>running := (running ?v)(i \<mapsto> ?x)\<rparr>"
        by (rule yields_foldl) (simp_all add: onCreated_def)
      then have loop: "foldl step w (Arrives i req # UpstreamAccepts i # map (UpstreamYields i) cs)
          = w\<lparr>store := srv', running := (running w)(i \<mapsto> ?x)\<rparr>"
        using first second by simp
      have hot: "streaming ?x"
        by (induction cs rule: rev_induct) (simp_all add: onCreated_def)
      show ?thesis
      proof (cases fin)
        case None
        obtain s r where t: "onStreamEnd srv' ?x = (s, r)"
          by (cases "onStreamEnd srv' ?x")
        have "foldl step w (script i req up)
            = step (foldl step w (Arrives i req # UpstreamAccepts i # map (UpstreamYields i) cs))
                (UpstreamEnds i)"
          by (simp add: Streams None)
        also have "\<dots> = w\<lparr>store := s, replies := (replies w)(i \<mapsto> r)\<rparr>"
          using hot by (simp only: loop) (simp add: t gone)
        finally show ?thesis
          by (simp add: Streams None serve_def start Awaiting Let_def t)
      next
        case (Some e)
        obtain s r where t: "onThrow e srv' ?x = (s, r)"
          by (cases "onThrow e srv' ?x")
        have "foldl step w (script i req up)
            = step (foldl step w (Arrives i req # UpstreamAccepts i # map (UpstreamYields i) cs))
                (UpstreamThrows i e)"
          by (simp add: Streams Some)
        also have "\<dots> = w\<lparr>store := s, replies := (replies w)(i \<mapsto> r)\<rparr>"
          by (simp only: loop) (simp add: t gone)
        finally show ?thesis
          by (simp add: Streams Some serve_def start Awaiting Let_def t)
      qed
    qed
  qed
qed

text \<open>
  In every state the server can reach, a call that is waiting holds the lock of its
  session and its session has an array in the store; so the array that
  \<open>sessionHistory\<close> names is the one in the store when the pushes run.
\<close>

lemma handlerStart_Finished_store:
  assumes "handlerStart srv req = (srv', Finished r)"
  shows "sessionsInProcess srv' = sessionsInProcess srv
    \<and> (\<forall>k. chatMemory srv k \<noteq> None \<longrightarrow> chatMemory srv' k \<noteq> None)"
proof (cases "currentSessionIdOf req \<in> sessionsInProcess srv")
  case True
  with assms show ?thesis by (simp add: handlerStart_def)
next
  case False
  then have "insert (currentSessionIdOf req) (sessionsInProcess srv) - {currentSessionIdOf req}
      = sessionsInProcess srv"
    by auto
  with assms False show ?thesis
    by (auto simp: handlerStart_def Let_def admitted_def finished_def finallyBlock_def
        tryBlock_def split: if_splits sum.splits prod.splits tried.splits)
qed

lemma handlerStart_Awaiting_store:
  assumes "handlerStart srv req = (srv', Awaiting x)"
  shows "currentSessionId x \<notin> sessionsInProcess srv
    \<and> sessionsInProcess srv' = insert (currentSessionId x) (sessionsInProcess srv)
    \<and> chatMemory srv' (currentSessionId x) \<noteq> None
    \<and> (\<forall>k. chatMemory srv k \<noteq> None \<longrightarrow> chatMemory srv' k \<noteq> None)"
  using assms
  by (auto simp: handlerStart_def Let_def admitted_def finished_def finallyBlock_def
      tryBlock_def memoryLookup_def
      split: if_splits sum.splits prod.splits tried.splits option.splits property.splits)

lemma currentSessionId_onChunk [simp]: "currentSessionId (onChunk c x) = currentSessionId x"
  by (simp add: onChunk_def split: option.splits)

lemma currentSessionId_onCreated [simp]: "currentSessionId (onCreated x) = currentSessionId x"
  by (simp add: onCreated_def)

lemma onStreamEnd_store:
  assumes "onStreamEnd srv x = (srv', r)"
  shows "sessionsInProcess srv' = sessionsInProcess srv - {currentSessionId x}
    \<and> (\<forall>k. chatMemory srv k \<noteq> None \<longrightarrow> chatMemory srv' k \<noteq> None)"
  using assms
  by (auto simp: onStreamEnd_def Let_def finallyBlock_def sessionHistoryPush_def
      split: option.splits if_splits)

lemma onThrow_store:
  assumes "onThrow e srv x = (srv', r)"
  shows "sessionsInProcess srv' = sessionsInProcess srv - {currentSessionId x}
    \<and> chatMemory srv' = chatMemory srv"
  using assms by (auto simp: onThrow_def finallyBlock_def)

lemma locksHeld_step: "locksHeld w \<Longrightarrow> locksHeld (step w ev)"
proof (cases ev)
  case (Arrives i req)
  assume inv: "locksHeld w"
  show ?thesis
  proof (cases "running w i \<noteq> None \<or> replies w i \<noteq> None")
    case True
    with inv show ?thesis by (simp add: Arrives)
  next
    case False
    obtain srv' out where start: "handlerStart (store w) req = (srv', out)"
      by (cases "handlerStart (store w) req")
    show ?thesis
    proof (cases out)
      case (Finished r)
      from handlerStart_Finished_store [OF start [unfolded Finished]] inv False
      show ?thesis
        by (simp add: Arrives start Finished locksHeld_def)
    next
      case (Awaiting x)
      from handlerStart_Awaiting_store [OF start [unfolded Awaiting]]
      have a: "currentSessionId x \<notin> sessionsInProcess (store w)"
        "sessionsInProcess srv' = insert (currentSessionId x) (sessionsInProcess (store w))"
        "chatMemory srv' (currentSessionId x) \<noteq> None"
        "\<And>k. chatMemory (store w) k \<noteq> None \<Longrightarrow> chatMemory srv' k \<noteq> None"
        by blast+
      have step: "step w ev = w\<lparr>store := srv', running := (running w)(i \<mapsto> x)\<rparr>"
        using False by (simp add: Arrives start Awaiting)
      show ?thesis
        unfolding step locksHeld_def
      proof (intro allI impI)
        fix j y
        assume r: "running (w\<lparr>store := srv', running := (running w)(i \<mapsto> x)\<rparr>) j = Some y"
        show "currentSessionId y \<in> sessionsInProcess (store (w\<lparr>store := srv', running := (running w)(i \<mapsto> x)\<rparr>))
          \<and> chatMemory (store (w\<lparr>store := srv', running := (running w)(i \<mapsto> x)\<rparr>)) (currentSessionId y) \<noteq> None
          \<and> (\<forall>k z. running (w\<lparr>store := srv', running := (running w)(i \<mapsto> x)\<rparr>) k = Some z
                \<and> currentSessionId z = currentSessionId y \<longrightarrow> k = j)"
        proof (cases "j = i")
          case True
          with r have y: "y = x" by simp
          have "k = i" if "running w k = Some z" "currentSessionId z = currentSessionId x" for k z
          proof -
            from inv that(1) have "currentSessionId z \<in> sessionsInProcess (store w)"
              unfolding locksHeld_def by blast
            with that(2) a(1) show ?thesis by simp
          qed
          with a y True show ?thesis by (auto split: if_splits)
        next
          case ne: False
          with r have old: "running w j = Some y" by simp
          with inv have h: "currentSessionId y \<in> sessionsInProcess (store w)"
            "chatMemory (store w) (currentSessionId y) \<noteq> None"
            "\<And>k z. running w k = Some z \<Longrightarrow> currentSessionId z = currentSessionId y \<Longrightarrow> k = j"
            unfolding locksHeld_def by blast+
          from h(1) a(1) have "currentSessionId x \<noteq> currentSessionId y" by auto
          with h a ne show ?thesis by (auto split: if_splits)
        qed
      qed
    qed
  qed
next
  case (UpstreamAccepts i)
  assume inv: "locksHeld w"
  then show ?thesis
    unfolding UpstreamAccepts locksHeld_def
    by (auto split: option.splits if_splits)
next
  case (UpstreamYields i c)
  assume inv: "locksHeld w"
  then show ?thesis
    unfolding UpstreamYields locksHeld_def
    by (auto split: option.splits if_splits)
next
  case (UpstreamEnds i)
  assume inv: "locksHeld w"
  show ?thesis
  proof (cases "running w i")
    case None
    with inv show ?thesis by (simp add: UpstreamEnds)
  next
    case (Some x)
    show ?thesis
    proof (cases "streaming x")
      case False
      with inv Some show ?thesis by (simp add: UpstreamEnds)
    next
      case True
      obtain srv' r where e: "onStreamEnd (store w) x = (srv', r)"
        by (cases "onStreamEnd (store w) x")
      from onStreamEnd_store [OF e]
      have a: "sessionsInProcess srv' = sessionsInProcess (store w) - {currentSessionId x}"
        "\<And>k. chatMemory (store w) k \<noteq> None \<Longrightarrow> chatMemory srv' k \<noteq> None"
        by blast+
      have "step w ev = w\<lparr>store := srv', running := (running w)(i := None),
          replies := (replies w)(i \<mapsto> r)\<rparr>"
        using Some True by (simp add: UpstreamEnds e)
      with inv Some a show ?thesis
        unfolding locksHeld_def by (auto split: if_splits)
    qed
  qed
next
  case (UpstreamThrows i e)
  assume inv: "locksHeld w"
  show ?thesis
  proof (cases "running w i")
    case None
    with inv show ?thesis by (simp add: UpstreamThrows)
  next
    case (Some x)
    obtain srv' r where t: "onThrow e (store w) x = (srv', r)"
      by (cases "onThrow e (store w) x")
    from onThrow_store [OF t]
    have a: "sessionsInProcess srv' = sessionsInProcess (store w) - {currentSessionId x}"
      "chatMemory srv' = chatMemory (store w)"
      by blast+
    have "step w ev = w\<lparr>store := srv', running := (running w)(i := None),
        replies := (replies w)(i \<mapsto> r)\<rparr>"
      using Some by (simp add: UpstreamThrows t)
    with inv Some a show ?thesis
      unfolding locksHeld_def by (auto split: if_splits)
  qed
qed

lemma locksHeld_run: "locksHeld (run evs)"
proof (induction evs rule: rev_induct)
  case Nil
  then show ?case by (simp add: run_def initialWorld_def locksHeld_def)
next
  case (snoc ev evs)
  then show ?case by (simp add: run_def locksHeld_step)
qed

section \<open>The claims about the handler\<close>


lemma chunkContent_textChunk [simp]:
  "chunkContent (textChunk text) = (if text = [] then None else Some text)"
  by (simp add: chunkContent_def textChunk_def)

lemma str_Nil [simp]: "(str cs = []) = (cs = [])"
  by (simp add: str_def)

lemma sample_keys:
  "memoryLookup emptyServer (str ''s1'') \<noteq> Inherited"
  "memoryLookup emptyServer (str ''default'') \<noteq> Inherited"
  by (simp_all add: memoryLookup_def emptyServer_def objectPrototypeKeys_def str_def)

lemma sample_ids:
  "currentSessionIdOf \<lparr>message = m, sessionId = Some (str ''s1'')\<rparr> = str ''s1''"
  "currentSessionIdOf \<lparr>message = m, sessionId = None\<rparr> = str ''default''"
  by (simp_all add: currentSessionIdOf_def orDefault_def str_def)

text \<open>
  C1. The handler calls \<open>res.writeHead(200, ...)\<close> before it awaits the completion call,
  so a completion call that rejects finds \<open>res.headersSent\<close> true: the request
  \<open>{ message: "hola" }\<close> on the empty server, with the completion call rejecting with
  \<open>Error("boom")\<close>, is answered with status 200, the event-stream headers and one
  \<open>event: error\<close> frame, not with status 500 and a JSON body.
\<close>

theorem upstream_rejection_answered_in_stream:
  "snd (serve emptyServer \<lparr>message = JString (str ''hola''), sessionId = None\<rparr>
          (Rejects (JSError (str ''boom''))))
     = \<lparr>statusCode = 200, headers = eventStreamHeaders, headersSent = True,
        written = [errorFrame (str ''boom'')], writableEnded = True\<rparr>"
proof -
  have "snd (serve emptyServer \<lparr>message = JString (str ''hola''), sessionId = None\<rparr>
          (Rejects (JSError (str ''boom''))))
     = streamReply [errorFrame (orDefault (errorText (JSError (str ''boom''))) streamErrorMessage)]"
    by (rule serve_throws_late(1) [where s = "str ''hola''"])
      (simp_all add: sample_ids sample_keys, simp_all add: emptyServer_def str_def)
  then show ?thesis
    by (simp add: streamReply_def orDefault_def str_def)
qed

text \<open>
  C3. A request whose stream throws after any number of chunks, or whose completion call
  rejects, leaves the history of every session as it was: neither the user turn nor a
  part of the reply is stored. The history changes only when the stream ends normally;
  among the pieces of a handler call only the one run at the end of the stream changes
  any history.
\<close>

theorem failed_stream_commits_nothing:
  "history (fst (serve srv req (Streams cs (Some e)))) = history srv
   \<and> history (fst (serve srv req (Rejects e))) = history srv
   \<and> (history (fst (serve srv req up)) \<noteq> history srv \<longrightarrow> (\<exists>cs'. up = Streams cs' None))
   \<and> ((\<forall>i. ev \<noteq> UpstreamEnds i) \<longrightarrow> history (store (step w ev)) = history (store w))"
proof (intro conjI impI)
  show "history (fst (serve srv req (Streams cs (Some e)))) = history srv"
    by (rule serve_failure_history)
  show "history (fst (serve srv req (Rejects e))) = history srv"
    by (rule serve_failure_history)
next
  assume changed: "history (fst (serve srv req up)) \<noteq> history srv"
  show "\<exists>cs'. up = Streams cs' None"
  proof (cases up)
    case (Rejects e')
    with changed show ?thesis by (simp add: serve_failure_history)
  next
    case (Streams cs' fin)
    with changed show ?thesis
      by (cases fin) (simp_all add: serve_failure_history)
  qed
next
  assume other: "\<forall>i. ev \<noteq> UpstreamEnds i"
  show "history (store (step w ev)) = history (store w)"
  proof (cases ev)
    case (Arrives i req')
    obtain srv' out where h: "handlerStart (store w) req' = (srv', out)"
      by (cases "handlerStart (store w) req'")
    have eq: "history srv' = history (store w)"
      using history_handlerStart [of "store w" req'] by (simp add: h)
    show ?thesis
      by (cases out) (simp_all add: Arrives h eq)
  next
    case (UpstreamAccepts i)
    then show ?thesis by (simp split: option.splits)
  next
    case (UpstreamYields i c)
    then show ?thesis by (simp split: option.splits)
  next
    case (UpstreamEnds i)
    with other show ?thesis by simp
  next
    case (UpstreamThrows i e')
    show ?thesis
    proof (cases "running w i")
      case None
      then show ?thesis by (simp add: UpstreamThrows)
    next
      case (Some x)
      obtain srv' r where h: "onThrow e' (store w) x = (srv', r)"
        by (cases "onThrow e' (store w) x")
      have eq: "history srv' = history (store w)"
        using history_onThrow [of e' "store w" x] by (simp add: h)
      show ?thesis
        by (simp add: UpstreamThrows Some h eq)
    qed
  qed
qed

theorem failed_stream_commits_nothing_witness:
  "history (fst (serve emptyServer
       \<lparr>message = JString (str ''hola''), sessionId = Some (str ''s1'')\<rparr>
       (Streams [textChunk (str ''El'')] (Some (JSError (str ''boom'')))))) = history emptyServer
   \<and> snd (serve emptyServer
       \<lparr>message = JString (str ''hola''), sessionId = Some (str ''s1'')\<rparr>
       (Streams [textChunk (str ''El'')] (Some (JSError (str ''boom'')))))
     = streamReply [dataFrame (str ''El''), errorFrame (str ''boom'')]
   \<and> history (fst (serve emptyServer
       \<lparr>message = JString (str ''hola''), sessionId = Some (str ''s1'')\<rparr>
       (Streams [textChunk (str ''El'')] None))) \<noteq> history emptyServer
   \<and> (\<forall>i. UpstreamYields 0 (textChunk (str ''El'')) \<noteq> UpstreamEnds i)
   \<and> history (store (step initialWorld (UpstreamYields 0 (textChunk (str ''El'')))))
     = history (store initialWorld)"
proof -
  let ?req = "\<lparr>message = JString (str ''hola''), sessionId = Some (str ''s1'')\<rparr>"
  have a: "currentSessionIdOf ?req \<notin> sessionsInProcess emptyServer"
    "memoryLookup emptyServer (currentSessionIdOf ?req) \<noteq> Inherited"
    "message ?req = JString (str ''hola'')" "str ''hola'' \<noteq> []"
    by (simp_all add: sample_ids sample_keys) (simp add: emptyServer_def)
  have late: "snd (serve emptyServer ?req
       (Streams [textChunk (str ''El'')] (Some (JSError (str ''boom'')))))
     = streamReply [dataFrame (str ''El''), errorFrame (str ''boom'')]"
    using serve_throws_late(2) [OF a, of "[textChunk (str ''El'')]" "JSError (str ''boom'')"]
    by (simp add: orDefault_def)
  have "history (fst (serve emptyServer ?req (Streams [textChunk (str ''El'')] None)))
      (str ''s1'') \<noteq> history emptyServer (str ''s1'')"
    by (simp add: serve_success_history [OF a] sample_ids)
  then have changed: "history (fst (serve emptyServer ?req
       (Streams [textChunk (str ''El'')] None))) \<noteq> history emptyServer"
    by metis
  from failed_stream_commits_nothing
    [of emptyServer ?req "[textChunk (str ''El'')]" "JSError (str ''boom'')"
      "Streams [textChunk (str ''El'')] None" "UpstreamYields 0 (textChunk (str ''El''))"
      initialWorld]
    late changed
  show ?thesis by simp
qed

text \<open>
  C4. After every sequence of events, from the start of the server, the history of every
  session alternates user turn, assistant turn, and so has even length; one
  uninterrupted piece of a handler call, in any state, leaves a history as it is or
  appends to it exactly one user turn followed by one assistant turn.
\<close>

theorem history_alternates:
  "alternates (history (store (run evs)) sid)
   \<and> even (length (history (store (run evs)) sid))
   \<and> (history (store (step w ev)) sid = history (store w) sid
      \<or> (\<exists>u a. history (store (step w ev)) sid =
            history (store w) sid
              @ [\<lparr>role = User, content = u\<rparr>, \<lparr>role = Assistant, content = a\<rparr>]))"
  using alternates_run [of evs sid] history_step [of w ev sid]
  by (simp add: alternates_even)

theorem history_alternates_witness:
  "alternates (history (store (run
      [Arrives 0 \<lparr>message = JString (str ''Usuario: hola''), sessionId = Some (str ''s1'')\<rparr>,
       Arrives 1 \<lparr>message = JString (str ''otra''), sessionId = Some (str ''s1'')\<rparr>,
       UpstreamAccepts 0,
       UpstreamYields 0 (textChunk (str ''El'')),
       UpstreamEnds 0])) (str ''s1''))
   \<and> history (store (run
      [Arrives 0 \<lparr>message = JString (str ''Usuario: hola''), sessionId = Some (str ''s1'')\<rparr>,
       Arrives 1 \<lparr>message = JString (str ''otra''), sessionId = Some (str ''s1'')\<rparr>,
       UpstreamAccepts 0,
       UpstreamYields 0 (textChunk (str ''El'')),
       UpstreamEnds 0])) (str ''s1'')
    = [\<lparr>role = User, content = str ''hola''\<rparr>, \<lparr>role = Assistant, content = str ''El''\<rparr>]"
proof -
  have "history (store (run
      [Arrives 0 \<lparr>message = JString (str ''Usuario: hola''), sessionId = Some (str ''s1'')\<rparr>,
       Arrives 1 \<lparr>message = JString (str ''otra''), sessionId = Some (str ''s1'')\<rparr>,
       UpstreamAccepts 0,
       UpstreamYields 0 (textChunk (str ''El'')),
       UpstreamEnds 0])) (str ''s1'')
    = [\<lparr>role = User, content = str ''hola''\<rparr>, \<lparr>role = Assistant, content = str ''El''\<rparr>]"
    by code_simp
  with history_alternates
    [of "[Arrives 0 \<lparr>message = JString (str ''Usuario: hola''), sessionId = Some (str ''s1'')\<rparr>,
       Arrives 1 \<lparr>message = JString (str ''otra''), sessionId = Some (str ''s1'')\<rparr>,
       UpstreamAccepts 0,
       UpstreamYields 0 (textChunk (str ''El'')),
       UpstreamEnds 0]" "str ''s1''"]
  show ?thesis by simp
qed

text \<open>
  C5, as stated, fails for a session that is being served: while the request
  \<open>{ message: "hola", sessionId: "s1" }\<close> waits for the completion API, the request
  \<open>{ sessionId: "s1" }\<close> without a message is answered with status 429, not 400, and the
  lock of \<open>"s1"\<close> is still held afterwards.
\<close>

theorem missing_message_on_busy_session:
  "\<not> truthy (message \<lparr>message = JUndefined, sessionId = Some (str ''s1'')\<rparr>)
   \<and> replies (run
      [Arrives 0 \<lparr>message = JString (str ''hola''), sessionId = Some (str ''s1'')\<rparr>,
       Arrives 1 \<lparr>message = JUndefined, sessionId = Some (str ''s1'')\<rparr>]) 1 = Some busyReply
   \<and> statusCode busyReply = 429
   \<and> str ''s1'' \<in> sessionsInProcess (store (run
      [Arrives 0 \<lparr>message = JString (str ''hola''), sessionId = Some (str ''s1'')\<rparr>,
       Arrives 1 \<lparr>message = JUndefined, sessionId = Some (str ''s1'')\<rparr>]))"
proof -
  let ?a = "\<lparr>message = JString (str ''hola''), sessionId = Some (str ''s1'')\<rparr>"
  let ?b = "\<lparr>message = JUndefined, sessionId = Some (str ''s1'')\<rparr>"
  have a: "currentSessionIdOf ?a \<notin> sessionsInProcess emptyServer"
    "memoryLookup emptyServer (currentSessionIdOf ?a) \<noteq> Inherited"
    "message ?a = JString (str ''hola'')" "str ''hola'' \<noteq> []"
    by (simp_all add: sample_ids sample_keys) (simp add: emptyServer_def)
  obtain srv x where first: "handlerStart emptyServer ?a = (srv, Awaiting x)"
    and locked: "str ''s1'' \<in> sessionsInProcess srv"
    using handlerStart_streams [OF a] by (simp add: sample_ids)
  have second: "handlerStart srv ?b = (srv, Finished busyReply)"
    by (rule handlerStart_busy) (simp add: sample_ids locked)
  show ?thesis
    by (simp add: run_def initialWorld_def first second locked busyReply_def)
qed

text \<open>
  C5, amended. A request whose session id is not in the lock set and whose message is
  absent or empty (or falsy in any other way) is answered with status 400 and a JSON
  error body; the event-stream header is never set; the server is left as it was, so
  the lock is released, and a following request for the same session is not answered
  with status 429.
\<close>

theorem missing_message_rejected:
  assumes "currentSessionIdOf req \<notin> sessionsInProcess srv"
    and "\<not> truthy (message req)"
  shows "serve srv req up = (srv, missingReply)
    \<and> currentSessionIdOf req \<notin> sessionsInProcess (fst (serve srv req up))
    \<and> (\<forall>req' up'. currentSessionIdOf req' = currentSessionIdOf req \<longrightarrow>
          statusCode (snd (serve (fst (serve srv req up)) req' up')) \<noteq> 429)"
  using assms by (simp add: serve_missing serve_status)

theorem missing_message_rejected_witness:
  "currentSessionIdOf \<lparr>message = JUndefined, sessionId = Some (str ''s1'')\<rparr>
      \<notin> sessionsInProcess emptyServer
   \<and> \<not> truthy (message \<lparr>message = JUndefined, sessionId = Some (str ''s1'')\<rparr>)
   \<and> \<not> truthy (message \<lparr>message = JString [], sessionId = Some (str ''s1'')\<rparr>)
   \<and> serve emptyServer \<lparr>message = JUndefined, sessionId = Some (str ''s1'')\<rparr> (Streams [] None)
       = (emptyServer, missingReply)
   \<and> serve emptyServer \<lparr>message = JString [], sessionId = Some (str ''s1'')\<rparr> (Streams [] None)
       = (emptyServer, missingReply)
   \<and> statusCode (snd (serve (fst (serve emptyServer
          \<lparr>message = JUndefined, sessionId = Some (str ''s1'')\<rparr> (Streams [] None)))
          \<lparr>message = JString (str ''hola''), sessionId = Some (str ''s1'')\<rparr> (Streams [] None)))
       \<noteq> 429"
proof -
  let ?u = "\<lparr>message = JUndefined, sessionId = Some (str ''s1'')\<rparr>"
  let ?e = "\<lparr>message = JString [], sessionId = Some (str ''s1'')\<rparr>"
  let ?h = "\<lparr>message = JString (str ''hola''), sessionId = Some (str ''s1'')\<rparr>"
  have idle: "currentSessionIdOf ?u \<notin> sessionsInProcess emptyServer"
    "currentSessionIdOf ?e \<notin> sessionsInProcess emptyServer"
    by (simp_all add: emptyServer_def)
  have falsy: "\<not> truthy (message ?u)" "\<not> truthy (message ?e)"
    by simp_all
  note u = missing_message_rejected [OF idle(1) falsy(1), of "Streams [] None"]
  note e = missing_message_rejected [OF idle(2) falsy(2), of "Streams [] None"]
  from u have "currentSessionIdOf ?h = currentSessionIdOf ?u \<longrightarrow>
      statusCode (snd (serve (fst (serve emptyServer ?u (Streams [] None))) ?h (Streams [] None)))
        \<noteq> 429"
    by blast
  then have "statusCode (snd (serve (fst (serve emptyServer ?u (Streams [] None))) ?h
      (Streams [] None))) \<noteq> 429"
    by (simp add: sample_ids)
  with u e idle falsy show ?thesis
    by simp
qed

lemma chunkContent_None: "chunkContent (Chunk None) = None"
  by (simp add: chunkContent_def)

text \<open>
  C6. A request that runs to the end of the \<open>try\<close> block (its session is idle and its id
  is no name of \<open>Object.prototype\<close>, its message is a non-empty string, and the stream
  ends normally) is answered with status 200 and the event-stream headers; its body is one
  \<open>data\<close> frame for each chunk whose \<open>choices[0].delta.content\<close> is non-empty, in the
  order of the chunks, and then the frame \<open>data: [DONE]\<close> as the last. Each turn of the
  loop appends the frame of its chunk, or nothing when the chunk carries no text.
\<close>

theorem deltas_forwarded_in_order:
  assumes "currentSessionIdOf req \<notin> sessionsInProcess srv"
    and "memoryLookup srv (currentSessionIdOf req) \<noteq> Inherited"
    and "message req = JString s" and "s \<noteq> []"
  shows "snd (serve srv req (Streams cs None))
       = streamReply (map dataFrame (forwarded cs) @ [doneFrame])
     \<and> written (res (onChunk c x))
       = written (res x) @ (case chunkContent c of None \<Rightarrow> [] | Some text \<Rightarrow> [dataFrame text])"
  by (simp add: serve_success_reply [OF assms] onChunk_def resWrite_def split: option.splits)

lemma sample_frames:
  "dataFrame (str ''El'') = str ''data: {'' @ [0x22] @ str ''response'' @ [0x22] @ str '':''
      @ [0x22] @ str ''El'' @ [0x22] @ str ''}'' @ [0x0A, 0x0A]"
  "dataFrame (str '' saldo'') = str ''data: {'' @ [0x22] @ str ''response'' @ [0x22] @ str '':''
      @ [0x22] @ str '' saldo'' @ [0x22] @ str ''}'' @ [0x0A, 0x0A]"
  by (simp_all add: dataFrame_def stringifyField_def quoteJSONString_def quoteUnit_def str_def)

theorem deltas_forwarded_in_order_witness:
  "currentSessionIdOf \<lparr>message = JString (str ''hola''), sessionId = Some (str ''s1'')\<rparr>
      \<notin> sessionsInProcess emptyServer
   \<and> memoryLookup emptyServer
        (currentSessionIdOf \<lparr>message = JString (str ''hola''), sessionId = Some (str ''s1'')\<rparr>)
      \<noteq> Inherited
   \<and> str ''hola'' \<noteq> []
   \<and> written (snd (serve emptyServer
        \<lparr>message = JString (str ''hola''), sessionId = Some (str ''s1'')\<rparr>
        (Streams [textChunk (str ''El''), Chunk None, textChunk [], textChunk (str '' saldo'')]
           None)))
     = [str ''data: {'' @ [0x22] @ str ''response'' @ [0x22] @ str '':''
          @ [0x22] @ str ''El'' @ [0x22] @ str ''}'' @ [0x0A, 0x0A],
        str ''data: {'' @ [0x22] @ str ''response'' @ [0x22] @ str '':''
          @ [0x22] @ str '' saldo'' @ [0x22] @ str ''}'' @ [0x0A, 0x0A],
        str ''data: [DONE]'' @ [0x0A, 0x0A]]"
proof -
  let ?req = "\<lparr>message = JString (str ''hola''), sessionId = Some (str ''s1'')\<rparr>"
  have a: "currentSessionIdOf ?req \<notin> sessionsInProcess emptyServer"
    "memoryLookup emptyServer (currentSessionIdOf ?req) \<noteq> Inherited"
    "message ?req = JString (str ''hola'')" "str ''hola'' \<noteq> []"
    by (simp_all add: sample_ids sample_keys) (simp add: emptyServer_def)
  have "forwarded [textChunk (str ''El''), Chunk None, textChunk [], textChunk (str '' saldo'')]
      = [str ''El'', str '' saldo'']"
    by (simp add: chunkContent_None)
  with deltas_forwarded_in_order
    [OF a, of "[textChunk (str ''El''), Chunk None, textChunk [], textChunk (str '' saldo'')]"]
    a
  show ?thesis
    by (simp add: streamReply_def sample_frames doneFrame_def)
qed

lemma last_buildMessages [simp]:
  "last (buildMessagesForTogether h m) = \<lparr>role = User, content = m\<rparr>"
  by (simp add: buildMessagesForTogether_def)

lemma sample_empty:
  "cleanUserMessage (str ''@bob'') = []"
  "cleanUserMessage (str ''Usuario:'') = []"
  by code_simp+

text \<open>
  C10. The test for status 400 reads the message as it arrived: for an idle session the
  reply has status 400 exactly when the message is falsy. A non-empty string that
  sanitizes to the empty string, sent to an idle session whose id is no name of
  \<open>Object.prototype\<close>, passes: the event-stream header is sent with status 200, the
  last message of the request to the completion API is a user message with empty
  content, and when the stream ends normally a user turn with empty content is stored.
\<close>

theorem validation_reads_raw_message:
  assumes "currentSessionIdOf req \<notin> sessionsInProcess srv"
    and "memoryLookup srv (currentSessionIdOf req) \<noteq> Inherited"
    and "message req = JString s" and "s \<noteq> []" and "cleanUserMessage s = []"
  shows "(\<exists>srv' x. handlerStart srv req = (srv', Awaiting x) \<and> res x = streamHead
            \<and> last (messagesForTogether x) = \<lparr>role = User, content = []\<rparr>)
     \<and> statusCode (snd (serve srv req up)) = 200
     \<and> history (fst (serve srv req (Streams cs None))) (currentSessionIdOf req)
       = history srv (currentSessionIdOf req)
           @ [\<lparr>role = User, content = []\<rparr>,
              \<lparr>role = Assistant, content = trim (concat (forwarded cs))\<rparr>]
     \<and> (currentSessionIdOf r \<notin> sessionsInProcess v \<longrightarrow>
          (statusCode (snd (serve v r u)) = 400) = (\<not> truthy (message r)))"
proof -
  note a = assms(1-4)
  have "\<exists>srv' x. handlerStart srv req = (srv', Awaiting x) \<and> res x = streamHead
            \<and> last (messagesForTogether x) = \<lparr>role = User, content = []\<rparr>"
    by (simp add: handlerStart_streams [OF a] assms(5))
  moreover have "statusCode (snd (serve srv req up)) = 200"
    using assms by (simp add: serve_status)
  moreover have "history (fst (serve srv req (Streams cs None))) (currentSessionIdOf req)
       = history srv (currentSessionIdOf req)
           @ [\<lparr>role = User, content = []\<rparr>,
              \<lparr>role = Assistant, content = trim (concat (forwarded cs))\<rparr>]"
    by (simp add: serve_success_history [OF a] assms(5))
  moreover have "currentSessionIdOf r \<notin> sessionsInProcess v \<longrightarrow>
          (statusCode (snd (serve v r u)) = 400) = (\<not> truthy (message r))"
    by (simp add: serve_status)
  ultimately show ?thesis by blast
qed

theorem validation_reads_raw_message_witness:
  "currentSessionIdOf \<lparr>message = JString (str ''@bob''), sessionId = Some (str ''s1'')\<rparr>
      \<notin> sessionsInProcess emptyServer
   \<and> memoryLookup emptyServer (currentSessionIdOf
       \<lparr>message = JString (str ''@bob''), sessionId = Some (str ''s1'')\<rparr>) \<noteq> Inherited
   \<and> str ''@bob'' \<noteq> [] \<and> cleanUserMessage (str ''@bob'') = []
   \<and> str ''Usuario:'' \<noteq> [] \<and> cleanUserMessage (str ''Usuario:'') = []
   \<and> statusCode (snd (serve emptyServer
        \<lparr>message = JString (str ''@bob''), sessionId = Some (str ''s1'')\<rparr>
        (Streams [textChunk (str ''Hola'')] None))) = 200
   \<and> history (fst (serve emptyServer
        \<lparr>message = JString (str ''@bob''), sessionId = Some (str ''s1'')\<rparr>
        (Streams [textChunk (str ''Hola'')] None))) (str ''s1'')
     = [\<lparr>role = User, content = []\<rparr>, \<lparr>role = Assistant, content = str ''Hola''\<rparr>]
   \<and> history (fst (serve emptyServer
        \<lparr>message = JString (str ''Usuario:''), sessionId = Some (str ''s1'')\<rparr>
        (Streams [textChunk (str ''Hola'')] None))) (str ''s1'')
     = [\<lparr>role = User, content = []\<rparr>, \<lparr>role = Assistant, content = str ''Hola''\<rparr>]
   \<and> currentSessionIdOf \<lparr>message = JString [], sessionId = Some (str ''s1'')\<rparr>
      \<notin> sessionsInProcess emptyServer
   \<and> statusCode (snd (serve emptyServer \<lparr>message = JString [], sessionId = Some (str ''s1'')\<rparr>
        (Streams [] None))) = 400"
proof -
  let ?b = "\<lparr>message = JString (str ''@bob''), sessionId = Some (str ''s1'')\<rparr>"
  let ?u = "\<lparr>message = JString (str ''Usuario:''), sessionId = Some (str ''s1'')\<rparr>"
  let ?e = "\<lparr>message = JString [], sessionId = Some (str ''s1'')\<rparr>"
  have b: "currentSessionIdOf ?b \<notin> sessionsInProcess emptyServer"
    "memoryLookup emptyServer (currentSessionIdOf ?b) \<noteq> Inherited"
    "message ?b = JString (str ''@bob'')" "str ''@bob'' \<noteq> []"
    "cleanUserMessage (str ''@bob'') = []"
    by (simp_all add: sample_ids sample_keys sample_empty) (simp add: emptyServer_def)
  have u: "currentSessionIdOf ?u \<notin> sessionsInProcess emptyServer"
    "memoryLookup emptyServer (currentSessionIdOf ?u) \<noteq> Inherited"
    "message ?u = JString (str ''Usuario:'')" "str ''Usuario:'' \<noteq> []"
    "cleanUserMessage (str ''Usuario:'') = []"
    by (simp_all add: sample_ids sample_keys sample_empty) (simp add: emptyServer_def)
  have e: "currentSessionIdOf ?e \<notin> sessionsInProcess emptyServer"
    by (simp add: emptyServer_def)
  have t: "trim (str ''Hola'') = str ''Hola''"
    by (simp add: trim_def isWhiteSpace_def str_def)
  note wb = validation_reads_raw_message
    [OF b, of "Streams [textChunk (str ''Hola'')] None" "[textChunk (str ''Hola'')]" ?e
      emptyServer "Streams [] None"]
  note wu = validation_reads_raw_message
    [OF u, of "Streams [textChunk (str ''Hola'')] None" "[textChunk (str ''Hola'')]" ?e
      emptyServer "Streams [] None"]
  from wb wu b u e show ?thesis
    by (simp add: sample_ids t history_def emptyServer_def)
qed

section \<open>The claims about the sanitizer\<close>


lemma replaceGlobal_no_match:
  "\<not> containsMatch m t \<Longrightarrow> replaceGlobal m t = t"
  by (induction t) simp_all

lemma length_replaceGlobal: "length (replaceGlobal m t) \<le> length t"
proof (induction m t rule: replaceGlobal.induct)
  case (1 m)
  then show ?case by simp
next
  case (2 m c cs)
  show ?case
  proof (cases "m (c # cs)")
    case None
    with 2 show ?thesis by simp
  next
    case (Some k)
    show ?thesis
    proof (cases k)
      case 0
      with 2 Some show ?thesis by simp
    next
      case (Suc n)
      with 2(3) [OF Some Suc] Some show ?thesis by simp
    qed
  qed
qed

lemma replaceGlobal_shrinks:
  assumes pos: "\<And>u. m u \<noteq> Some 0"
  shows "containsMatch m t \<Longrightarrow> length (replaceGlobal m t) < length t"
proof (induction t)
  case Nil
  then show ?case by simp
next
  case (Cons c cs)
  show ?case
  proof (cases "m (c # cs)")
    case None
    with Cons show ?thesis by simp
  next
    case (Some k)
    with pos [of "c # cs"] obtain n where k: "k = Suc n"
      by (cases k) simp_all
    have "length (replaceGlobal m (drop n cs)) \<le> length (drop n cs)"
      by (rule length_replaceGlobal)
    then show ?thesis
      by (simp add: Some k)
  qed
qed

lemma matchMarker_Some:
  "matchMarker t = Some n \<Longrightarrow> \<exists>m \<in> set roleMarkers. matchLiteral m t \<and> n = length m"
  by (auto simp: matchMarker_def find_Some_iff)

lemma roleMarkers_nonempty: "m \<in> set roleMarkers \<Longrightarrow> m \<noteq> []"
  by (auto simp: roleMarkers_def str_def)

lemma matchMarker_positive: "matchMarker t \<noteq> Some 0"
  using matchMarker_Some [of t 0] roleMarkers_nonempty by auto

lemma matchMention_Nil [simp]: "matchMention [] = None"
  by (simp add: matchMention_def)

lemma matchMention_single [simp]: "matchMention [c] = None"
  by (simp add: matchMention_def)

lemma matchMention_Cons2:
  "matchMention (c # d # r) =
     (if c = 0x40 \<and> inHandleClass d
      then Some (Suc (Suc (length (takeWhile inHandleClass r)))) else None)"
  by (simp add: matchMention_def)

lemma matchMention_Some:
  "matchMention t = Some n \<longleftrightarrow>
     (\<exists>d r. t = 0x40 # d # r \<and> inHandleClass d
        \<and> n = Suc (Suc (length (takeWhile inHandleClass r))))"
proof (cases t)
  case Nil
  then show ?thesis by simp
next
  case (Cons c u)
  then show ?thesis
    by (cases u) (auto simp: matchMention_Cons2)
qed

lemma at_not_in_class [simp]: "\<not> inHandleClass 0x40"
  by (simp add: inHandleClass_def isWordChar_def)

lemma matchMention_positive: "matchMention t \<noteq> Some 0"
  by (simp add: matchMention_Some)

lemma matchMention_iff:
  "matchMention (c # t) \<noteq> None \<longleftrightarrow> c = 0x40 \<and> startsInClass t"
  by (cases t) (simp_all add: matchMention_Cons2 startsInClass_def)

lemma startsInClass_dropWhile [simp]:
  "\<not> startsInClass (dropWhile inHandleClass t)"
  by (induction t) (simp_all add: startsInClass_def)

lemma drop_run: "drop (length (takeWhile P t)) t = dropWhile P t"
  by (induction t) simp_all

lemma replaceGlobal_keeps_start:
  "\<not> startsInClass t \<Longrightarrow> \<not> startsInClass (replaceGlobal matchMention t)"
proof (induction "length t" arbitrary: t rule: less_induct)
  case less
  show ?case
  proof (cases t)
    case Nil
    then show ?thesis by (simp add: startsInClass_def)
  next
    case (Cons c cs)
    with less.prems have c: "\<not> inHandleClass c"
      by (simp add: startsInClass_def)
    show ?thesis
    proof (cases "matchMention (c # cs)")
      case None
      with c Cons show ?thesis by (simp add: startsInClass_def)
    next
      case (Some k)
      then obtain d r where cs: "c = 0x40" "cs = d # r" "inHandleClass d"
        and k: "k = Suc (Suc (length (takeWhile inHandleClass r)))"
        by (auto simp: matchMention_Some)
      have rest: "drop (Suc (length (takeWhile inHandleClass r))) cs = dropWhile inHandleClass r"
        by (simp add: cs drop_run)
      have "\<not> startsInClass (replaceGlobal matchMention (dropWhile inHandleClass r))"
        by (rule less.hyps) (simp_all add: Cons cs less_Suc_eq_le length_dropWhile_le le_SucI)
      with Some k rest show ?thesis
        by (simp add: Cons)
    qed
  qed
qed

lemma no_mention_left:
  "\<not> containsMatch matchMention (replaceGlobal matchMention t)"
proof (induction "length t" arbitrary: t rule: less_induct)
  case less
  show ?case
  proof (cases t)
    case Nil
    then show ?thesis by simp
  next
    case (Cons c cs)
    show ?thesis
    proof (cases "matchMention (c # cs)")
      case None
      have "\<not> containsMatch matchMention (replaceGlobal matchMention cs)"
        by (rule less.hyps) (simp add: Cons)
      moreover have "matchMention (c # replaceGlobal matchMention cs) = None"
      proof (cases "c = 0x40")
        case True
        with None have "\<not> startsInClass cs"
          using matchMention_iff [of c cs] by simp
        then have "\<not> startsInClass (replaceGlobal matchMention cs)"
          by (rule replaceGlobal_keeps_start)
        then show ?thesis
          using matchMention_iff [of c "replaceGlobal matchMention cs"] by simp
      next
        case False
        then show ?thesis
          using matchMention_iff [of c "replaceGlobal matchMention cs"] by simp
      qed
      ultimately show ?thesis
        by (simp add: Cons None)
    next
      case (Some k)
      then obtain d r where cs: "c = 0x40" "cs = d # r" "inHandleClass d"
        and k: "k = Suc (Suc (length (takeWhile inHandleClass r)))"
        by (auto simp: matchMention_Some)
      have rest: "drop (Suc (length (takeWhile inHandleClass r))) cs = dropWhile inHandleClass r"
        by (simp add: cs drop_run)
      have "\<not> containsMatch matchMention (replaceGlobal matchMention (dropWhile inHandleClass r))"
        by (rule less.hyps) (simp_all add: Cons cs less_Suc_eq_le length_dropWhile_le le_SucI)
      with Some k rest show ?thesis
        by (simp add: Cons)
    qed
  qed
qed

lemma containsMatch_append:
  "containsMatch m ys \<Longrightarrow> containsMatch m (xs @ ys)"
  by (induction xs) simp_all

lemma containsMatch_dropWhile:
  "containsMatch m (dropWhile P t) \<Longrightarrow> containsMatch m t"
  using containsMatch_append [of m "dropWhile P t" "takeWhile P t"] by simp

lemma startsInClass_append: "startsInClass t \<Longrightarrow> startsInClass (t @ w)"
  by (cases t) (simp_all add: startsInClass_def)

lemma containsMatch_mention_prefix:
  "containsMatch matchMention p \<Longrightarrow> containsMatch matchMention (p @ w)"
proof (induction p)
  case Nil
  then show ?case by simp
next
  case (Cons c p)
  show ?case
  proof (cases "matchMention (c # p) = None")
    case True
    with Cons show ?thesis by simp
  next
    case False
    then have "c = 0x40 \<and> startsInClass p"
      using matchMention_iff [of c p] by blast
    then have "matchMention (c # (p @ w)) \<noteq> None"
      using matchMention_iff [of c "p @ w"] startsInClass_append [of p w] by blast
    then show ?thesis by simp
  qed
qed

lemma strip_end: "t = rev (dropWhile P (rev t)) @ rev (takeWhile P (rev t))"
proof -
  have "t = rev (rev t)"
    by simp
  also have "\<dots> = rev (takeWhile P (rev t) @ dropWhile P (rev t))"
    by (simp only: takeWhile_dropWhile_id)
  also have "\<dots> = rev (dropWhile P (rev t)) @ rev (takeWhile P (rev t))"
    by (simp only: rev_append)
  finally show ?thesis .
qed

lemma containsMatch_mention_trim:
  assumes "containsMatch matchMention (trim t)"
  shows "containsMatch matchMention t"
proof -
  let ?a = "dropWhile isWhiteSpace t"
  have "containsMatch matchMention
      (rev (dropWhile isWhiteSpace (rev ?a)) @ rev (takeWhile isWhiteSpace (rev ?a)))"
    using assms by (simp only: trim_def containsMatch_mention_prefix)
  then have "containsMatch matchMention ?a"
    using strip_end [of ?a isWhiteSpace] by simp
  then show ?thesis by (rule containsMatch_dropWhile)
qed

lemma trim_decompose:
  "t = takeWhile isWhiteSpace t @ trim t
         @ rev (takeWhile isWhiteSpace (rev (dropWhile isWhiteSpace t)))"
proof -
  have "t = takeWhile isWhiteSpace t @ dropWhile isWhiteSpace t"
    by simp
  also have "dropWhile isWhiteSpace t = trim t
         @ rev (takeWhile isWhiteSpace (rev (dropWhile isWhiteSpace t)))"
    unfolding trim_def by (rule strip_end)
  finally show ?thesis .
qed

lemma trim_first: "trim t \<noteq> [] \<Longrightarrow> \<not> isWhiteSpace (hd (trim t))"
proof -
  assume ne: "trim t \<noteq> []"
  let ?a = "dropWhile isWhiteSpace t"
  have a: "?a = trim t @ rev (takeWhile isWhiteSpace (rev ?a))"
    unfolding trim_def by (rule strip_end)
  have "?a \<noteq> []"
  proof
    assume "?a = []"
    then have "trim t = []" by (simp only: trim_def) simp
    with ne show False by simp
  qed
  then have "\<not> isWhiteSpace (hd ?a)"
    by (rule hd_dropWhile)
  moreover have "hd ?a = hd (trim t)"
    using ne by (subst a) simp
  ultimately show ?thesis by simp
qed

lemma trim_last: "trim t \<noteq> [] \<Longrightarrow> \<not> isWhiteSpace (last (trim t))"
proof -
  assume ne: "trim t \<noteq> []"
  let ?b = "dropWhile isWhiteSpace (rev (dropWhile isWhiteSpace t))"
  have t: "trim t = rev ?b" by (simp add: trim_def)
  with ne have "?b \<noteq> []" by simp
  then have "\<not> isWhiteSpace (hd ?b)" by (rule hd_dropWhile)
  moreover have "last (trim t) = hd ?b"
    using \<open>?b \<noteq> []\<close> by (simp add: t last_rev)
  ultimately show ?thesis by simp
qed

lemma dropWhile_id: "t = [] \<or> \<not> P (hd t) \<Longrightarrow> dropWhile P t = t"
  by (cases t) auto

lemma trim_fixed:
  assumes "t = [] \<or> (\<not> isWhiteSpace (hd t) \<and> \<not> isWhiteSpace (last t))"
  shows "trim t = t"
proof -
  have a: "dropWhile isWhiteSpace t = t"
    using assms by (intro dropWhile_id) auto
  have "rev t = [] \<or> \<not> isWhiteSpace (hd (rev t))"
    using assms by (cases "t = []") (simp_all add: hd_rev)
  then have "dropWhile isWhiteSpace (rev t) = rev t"
    by (rule dropWhile_id)
  with a show ?thesis by (simp add: trim_def)
qed

lemma trim_trim: "trim (trim t) = trim t"
  by (rule trim_fixed) (use trim_first trim_last in blast)

lemma length_trim: "length (trim t) \<le> length t"
proof -
  have "length (trim t) \<le> length (dropWhile isWhiteSpace t)"
    using length_dropWhile_le [of isWhiteSpace "rev (dropWhile isWhiteSpace t)"]
    by (simp add: trim_def)
  also have "\<dots> \<le> length t" by (rule length_dropWhile_le)
  finally show ?thesis .
qed

lemma clean_fixed_iff:
  "cleanUserMessage (cleanUserMessage s) = cleanUserMessage s
     \<longleftrightarrow> \<not> containsMatch matchMarker (cleanUserMessage s)"
proof
  assume fixed: "cleanUserMessage (cleanUserMessage s) = cleanUserMessage s"
  show "\<not> containsMatch matchMarker (cleanUserMessage s)"
  proof
    assume "containsMatch matchMarker (cleanUserMessage s)"
    then have "length (replaceGlobal matchMarker (cleanUserMessage s))
        < length (cleanUserMessage s)"
      by (rule replaceGlobal_shrinks [rotated]) (rule matchMarker_positive)
    moreover have "length (cleanUserMessage (cleanUserMessage s))
        \<le> length (replaceGlobal matchMarker (cleanUserMessage s))"
      unfolding cleanUserMessage_def [of "cleanUserMessage s"]
      by (rule order_trans [OF length_trim length_replaceGlobal])
    ultimately show False using fixed by simp
  qed
next
  assume none: "\<not> containsMatch matchMarker (cleanUserMessage s)"
  let ?t = "cleanUserMessage s"
  have "\<not> containsMatch matchMention ?t"
    unfolding cleanUserMessage_def
    using containsMatch_mention_trim no_mention_left by blast
  then have "replaceGlobal matchMention ?t = ?t"
    by (rule replaceGlobal_no_match)
  moreover have "replaceGlobal matchMarker ?t = ?t"
    using none by (rule replaceGlobal_no_match)
  moreover have "trim ?t = ?t"
    unfolding cleanUserMessage_def by (rule trim_trim)
  ultimately show "cleanUserMessage ?t = ?t"
    unfolding cleanUserMessage_def [of "cleanUserMessage s"] by simp
qed

lemma sample_nested:
  "cleanUserMessage (str ''UsuUsuario:ario:'') = str ''Usuario:''"
  by code_simp

lemma replaceGlobal_keep:
  "t = c # cs \<Longrightarrow> m t = None \<Longrightarrow> replaceGlobal m t = c # replaceGlobal m cs"
  by simp

lemma replaceGlobal_drop:
  "t = c # cs \<Longrightarrow> m t = Some (Suc n) \<Longrightarrow> replaceGlobal m t = replaceGlobal m (drop n cs)"
  by simp

lemma upt_split: "i \<le> j \<Longrightarrow> j \<le> l \<Longrightarrow> [i..<l] = [i..<j] @ [j..<l]"
  using upt_add_eq_append [of i j "l - j"] by simp

lemma filter_upt_none:
  "(\<And>k. i \<le> k \<Longrightarrow> k < j \<Longrightarrow> \<not> P k) \<Longrightarrow> filter P [i..<j] = []"
  by (simp add: filter_empty_conv)

lemma scan_from:
  assumes bound: "\<And>i n. m (drop i s) = Some n \<Longrightarrow> 0 < n \<and> i + n \<le> length s"
    and nest: "\<And>i n j n'. m (drop i s) = Some n \<Longrightarrow> i < j \<Longrightarrow> j < i + n \<Longrightarrow>
        m (drop j s) = Some n' \<Longrightarrow> j + n' \<le> i + n"
  shows "i \<le> length s \<Longrightarrow> (\<forall>j<i. \<forall>n. m (drop j s) = Some n \<longrightarrow> j + n \<le> i) \<Longrightarrow>
     replaceGlobal m (drop i s)
       = map ((!) s) (filter (\<lambda>k. \<not> reached m s k) [i..<length s])"
proof (induction "length s - i" arbitrary: i rule: less_induct)
  case less
  show ?case
  proof (cases "i = length s")
    case True
    then show ?thesis by simp
  next
    case False
    with less.prems have lt: "i < length s" by simp
    then have split: "drop i s = s ! i # drop (Suc i) s"
      by (simp add: Cons_nth_drop_Suc)
    have upt: "[i..<length s] = i # [Suc i..<length s]"
      using lt by (simp add: upt_conv_Cons)
    show ?thesis
    proof (cases "m (drop i s)")
      case None
      have fresh: "\<not> reached m s i"
      proof
        assume "reached m s i"
        then obtain j n where j: "j \<le> i" "m (drop j s) = Some n" "i < j + n"
          by (auto simp: reached_def)
        show False
        proof (cases "j = i")
          case True
          with j None show False by simp
        next
          case False
          with j have "j < i" by simp
          with less.prems(2) j show False by fastforce
        qed
      qed
      have clean: "\<forall>j<Suc i. \<forall>n. m (drop j s) = Some n \<longrightarrow> j + n \<le> Suc i"
      proof (intro allI impI)
        fix j n
        assume a: "j < Suc i" "m (drop j s) = Some n"
        show "j + n \<le> Suc i"
        proof (cases "j = i")
          case True
          with a None show ?thesis by simp
        next
          case False
          with a have "j < i" by simp
          with less.prems(2) a have "j + n \<le> i" by blast
          then show ?thesis by simp
        qed
      qed
      have "replaceGlobal m (drop (Suc i) s)
          = map ((!) s) (filter (\<lambda>k. \<not> reached m s k) [Suc i..<length s])"
        by (rule less.hyps) (use lt clean in simp_all)
      moreover have "replaceGlobal m (drop i s) = s ! i # replaceGlobal m (drop (Suc i) s)"
        using split None by (rule replaceGlobal_keep [where m = m])
      ultimately show ?thesis
        using fresh by (simp add: upt)
    next
      case (Some k)
      from bound [OF Some] obtain n where k: "k = Suc n" and fit: "i + Suc n \<le> length s"
        by (cases k) auto
      have inside: "reached m s k'" if "i \<le> k'" "k' < i + Suc n" for k'
        unfolding reached_def using Some k that by blast
      have clean: "\<forall>j<i + Suc n. \<forall>n'. m (drop j s) = Some n' \<longrightarrow> j + n' \<le> i + Suc n"
      proof (intro allI impI)
        fix j n'
        assume a: "j < i + Suc n" "m (drop j s) = Some n'"
        consider "j < i" | "j = i" | "i < j" by linarith
        then show "j + n' \<le> i + Suc n"
        proof cases
          case 1
          with less.prems(2) a have "j + n' \<le> i" by blast
          then show ?thesis by simp
        next
          case 2
          with a Some k show ?thesis by simp
        next
          case 3
          from nest [OF Some 3 _ a(2)] a(1) k show ?thesis by simp
        qed
      qed
      have rec: "replaceGlobal m (drop (i + Suc n) s)
          = map ((!) s) (filter (\<lambda>k. \<not> reached m s k) [i + Suc n..<length s])"
        by (rule less.hyps) (use lt fit clean in simp_all)
      have "replaceGlobal m (drop i s) = replaceGlobal m (drop n (drop (Suc i) s))"
        using split by (rule replaceGlobal_drop [where m = m]) (simp add: Some k)
      also have "drop n (drop (Suc i) s) = drop (i + Suc n) s"
        by (simp add: add.commute)
      finally have step: "replaceGlobal m (drop i s) = replaceGlobal m (drop (i + Suc n) s)" .
      have "[i..<length s] = [i..<i + Suc n] @ [i + Suc n..<length s]"
        by (rule upt_split) (use fit in simp_all)
      moreover have "filter (\<lambda>k. \<not> reached m s k) [i..<i + Suc n] = []"
        by (rule filter_upt_none) (simp add: inside)
      ultimately have "filter (\<lambda>k. \<not> reached m s k) [i..<length s]
          = filter (\<lambda>k. \<not> reached m s k) [i + Suc n..<length s]"
        by (simp only: filter_append append_Nil)
      with step rec show ?thesis by simp
    qed
  qed
qed

lemma canonicalize_colon: "canonicalize c = 0x3A \<longleftrightarrow> c = 0x3A"
proof
  assume a: "canonicalize c = 0x3A"
  show "c = 0x3A"
  proof (cases "0x61 \<le> c \<and> c \<le> 0x7A")
    case True
    with a have "c - 0x20 = 0x3A" by (simp add: canonicalize_def)
    then have "c = 0x5A" by (simp add: diff_eq_eq)
    with True show ?thesis by simp
  next
    case False
    with a show ?thesis by (simp add: canonicalize_def split: if_splits)
  qed
next
  assume "c = 0x3A"
  then show "canonicalize c = 0x3A" by (simp add: canonicalize_def)
qed

lemma matchLiteral_iff:
  "matchLiteral m t \<longleftrightarrow>
     length m \<le> length t \<and> map canonicalize (take (length m) t) = map canonicalize m"
  by (induction m t rule: matchLiteral.induct) auto

lemma colon_ends_match:
  "matchLiteral (b @ [0x3A]) t \<Longrightarrow> \<forall>c\<in>set b. canonicalize c \<noteq> 0x3A \<Longrightarrow>
     length (takeWhile (\<lambda>c. c \<noteq> 0x3A) t) = length b"
proof (induction b arbitrary: t)
  case Nil
  then obtain c cs where t: "t = c # cs"
    by (cases t) simp_all
  have "canonicalize 0x3A = 0x3A"
    by (simp add: canonicalize_def)
  with Nil t have "canonicalize c = 0x3A"
    by simp
  then have "c = 0x3A"
    by (simp add: canonicalize_colon)
  with t show ?case by simp
next
  case (Cons p ps)
  then obtain c cs where t: "t = c # cs"
    by (cases t) simp_all
  with Cons.prems have "canonicalize p = canonicalize c" "canonicalize p \<noteq> 0x3A"
    by simp_all
  then have "c \<noteq> 0x3A"
    using canonicalize_colon [of c] by auto
  with Cons t show ?case by simp
qed

lemma roleMarkers_shape:
  "m \<in> set roleMarkers \<Longrightarrow>
     m = butlast m @ [0x3A] \<and> (\<forall>c\<in>set (butlast m). canonicalize c \<noteq> 0x3A)"
  by (auto simp: roleMarkers_def str_def canonicalize_def)

lemma marker_length:
  assumes "m \<in> set roleMarkers" "matchLiteral m t"
  shows "length m = Suc (length (takeWhile (\<lambda>c. c \<noteq> 0x3A) t))"
proof -
  from roleMarkers_shape [OF assms(1)]
  have shape: "butlast m @ [0x3A] = m" and rest: "\<forall>c\<in>set (butlast m). canonicalize c \<noteq> 0x3A"
    by simp_all
  have "matchLiteral (butlast m @ [0x3A]) t"
    using assms(2) by (simp only: shape)
  from colon_ends_match [OF this rest]
  have "length (takeWhile (\<lambda>c. c \<noteq> 0x3A) t) = length (butlast m)" .
  moreover have "m \<noteq> []"
    by (rule roleMarkers_nonempty [OF assms(1)])
  ultimately show ?thesis by simp
qed

lemma matchMarker_iff:
  "matchMarker t = Some n \<longleftrightarrow> (\<exists>m\<in>set roleMarkers. matchLiteral m t \<and> n = length m)"
proof
  assume "matchMarker t = Some n"
  then show "\<exists>m\<in>set roleMarkers. matchLiteral m t \<and> n = length m"
    by (rule matchMarker_Some)
next
  assume "\<exists>m\<in>set roleMarkers. matchLiteral m t \<and> n = length m"
  then obtain m where m: "m \<in> set roleMarkers" "matchLiteral m t" "n = length m"
    by blast
  then have "find (\<lambda>m. matchLiteral m t) roleMarkers \<noteq> None"
    by (auto simp: find_None_iff)
  then obtain m' where f: "find (\<lambda>m. matchLiteral m t) roleMarkers = Some m'"
    by blast
  then have "m' \<in> set roleMarkers" "matchLiteral m' t"
    by (auto simp: find_Some_iff)
  then have "length m' = length m"
    using marker_length m by simp
  with f m show "matchMarker t = Some n"
    by (simp add: matchMarker_def)
qed

lemma unat_lower:
  fixes c :: "16 word"
  assumes "0x61 \<le> c" "c \<le> 0x7A"
  shows "unat (c - 0x20) = unat c - 32"
proof -
  have "(0x20 :: 16 word) \<le> c"
    using assms(1) by (simp add: word_le_nat_alt)
  then have "unat (c - 0x20) = unat c - unat (0x20 :: 16 word)"
    by (rule unat_sub)
  then show ?thesis by simp
qed

lemma unat_upper:
  fixes c :: "16 word"
  assumes "0x41 \<le> c" "c \<le> 0x5A"
  shows "unat (c + 0x20) = unat c + 32"
proof -
  have "unat c \<le> 90"
    using assms(2) by (simp add: word_le_nat_alt)
  then have "unat c + unat (0x20 :: 16 word) < 2 ^ LENGTH(16)"
    by simp
  then have "unat (c + 0x20) = unat c + unat (0x20 :: 16 word)"
    by (rule unat_add_lem [THEN iffD1])
  then show ?thesis by simp
qed

lemma letter_ranges:
  fixes c :: "16 word"
  shows "(0x61 \<le> c \<and> c \<le> 0x7A) = (97 \<le> unat c \<and> unat c \<le> 122)"
    and "(0x41 \<le> c \<and> c \<le> 0x5A) = (65 \<le> unat c \<and> unat c \<le> 90)"
    and "(c = 0xF3) = (unat c = 243)"
    and "(c = 0xD3) = (unat c = 211)"
  by (simp_all add: word_le_nat_alt word_unat_eq_iff)

lemma unat_canonicalize:
  "unat (canonicalize c) =
     (if 97 \<le> unat c \<and> unat c \<le> 122 then unat c - 32
      else if unat c = 243 then 211 else unat c)"
proof (cases "0x61 \<le> c \<and> c \<le> 0x7A")
  case True
  then have "unat (canonicalize c) = unat c - 32"
    by (simp add: canonicalize_def unat_lower)
  moreover from True have "97 \<le> unat c \<and> unat c \<le> 122"
    by (simp only: letter_ranges simp_thms)
  ultimately show ?thesis by simp
next
  case False
  then have "canonicalize c = (if c = 0xF3 then 0xD3 else c)"
    by (simp only: canonicalize_def if_False simp_thms)
  then have "unat (canonicalize c) = (if c = 0xF3 then 211 else unat c)"
    by simp
  moreover from False have "\<not> (97 \<le> unat c \<and> unat c \<le> 122)"
    by (simp only: letter_ranges simp_thms)
  ultimately show ?thesis
    by (simp only: letter_ranges if_False simp_thms)
qed

lemma unat_otherCase:
  "unat (otherCase c) =
     (if 65 \<le> unat c \<and> unat c \<le> 90 then unat c + 32
      else if 97 \<le> unat c \<and> unat c \<le> 122 then unat c - 32
      else if unat c = 211 then 243
      else if unat c = 243 then 211
      else unat c)"
proof -
  consider (up) "0x41 \<le> c \<and> c \<le> 0x5A"
    | (low) "\<not> (0x41 \<le> c \<and> c \<le> 0x5A)" "0x61 \<le> c \<and> c \<le> 0x7A"
    | (other) "\<not> (0x41 \<le> c \<and> c \<le> 0x5A)" "\<not> (0x61 \<le> c \<and> c \<le> 0x7A)"
    by blast
  then show ?thesis
  proof cases
    case up
    then have "unat (otherCase c) = unat c + 32"
      by (simp add: otherCase_def unat_upper)
    moreover from up have "65 \<le> unat c \<and> unat c \<le> 90"
      by (simp only: letter_ranges simp_thms)
    ultimately show ?thesis by simp
  next
    case low
    then have "otherCase c = c - 0x20"
      by (simp only: otherCase_def if_False if_True simp_thms)
    with low have "unat (otherCase c) = unat c - 32"
      by (simp add: unat_lower)
    moreover from low have "\<not> (65 \<le> unat c \<and> unat c \<le> 90)" "97 \<le> unat c \<and> unat c \<le> 122"
      by (simp_all only: letter_ranges simp_thms)
    ultimately show ?thesis by simp
  next
    case other
    then have "otherCase c = (if c = 0xD3 then 0xF3 else if c = 0xF3 then 0xD3 else c)"
      by (simp only: otherCase_def if_False simp_thms)
    then have "unat (otherCase c)
        = (if c = 0xD3 then 243 else if c = 0xF3 then 211 else unat c)"
      by simp
    moreover from other
    have "\<not> (65 \<le> unat c \<and> unat c \<le> 90)" "\<not> (97 \<le> unat c \<and> unat c \<le> 122)"
      by (simp_all only: letter_ranges simp_thms)
    ultimately show ?thesis
      by (simp only: letter_ranges if_False simp_thms)
  qed
qed

lemma sameLetter_canonicalize: "sameLetter a b \<longleftrightarrow> canonicalize a = canonicalize b"
proof -
  have "sameLetter a b \<longleftrightarrow> unat a = unat b \<or> unat a = unat (otherCase b)"
    by (simp add: sameLetter_def word_unat_eq_iff)
  also have "\<dots> \<longleftrightarrow> unat (canonicalize a) = unat (canonicalize b)"
    unfolding unat_canonicalize unat_otherCase by (auto split: if_splits)
  also have "\<dots> \<longleftrightarrow> canonicalize a = canonicalize b"
    by (simp add: word_unat_eq_iff)
  finally show ?thesis .
qed

lemma sameLetter_list:
  "list_all2 sameLetter xs ys \<longleftrightarrow>
     length xs = length ys \<and> map canonicalize xs = map canonicalize ys"
proof (induction xs arbitrary: ys)
  case Nil
  then show ?case by auto
next
  case (Cons x xs)
  then show ?case
    by (cases ys) (auto simp: sameLetter_canonicalize)
qed


lemma markerOccurs_iff: "markerOccurs s i n \<longleftrightarrow> matchMarker (drop i s) = Some n"
proof -
  have "length m \<le> length s - i \<longleftrightarrow> i + length m \<le> length s"
    if "m \<in> set roleMarkers" for m
    using roleMarkers_nonempty [OF that] by (cases m) auto
  then show ?thesis
    unfolding markerOccurs_def matchMarker_iff matchLiteral_iff sameLetter_list
    by (auto simp: add.commute)
qed

lemma matchMarker_bound:
  "matchMarker (drop i s) = Some n \<Longrightarrow> 0 < n \<and> i + n \<le> length s"
  using matchMarker_positive [of "drop i s"]
  by (auto simp: markerOccurs_iff [symmetric] markerOccurs_def)

lemma takeWhile_drop:
  "d \<le> length (takeWhile P t) \<Longrightarrow> takeWhile P (drop d t) = drop d (takeWhile P t)"
proof (induction t arbitrary: d)
  case Nil
  then show ?case by simp
next
  case (Cons c cs)
  then show ?case
    by (cases d) (auto split: if_splits)
qed

lemma matchMarker_colon:
  "matchMarker t = Some n \<Longrightarrow> n = Suc (length (takeWhile (\<lambda>c. c \<noteq> 0x3A) t))"
  using marker_length by (auto simp: matchMarker_iff)

lemma matchMarker_nest:
  assumes i: "matchMarker (drop i s) = Some n" and j: "matchMarker (drop j s) = Some n'"
    and order: "i < j" "j < i + n"
  shows "j + n' \<le> i + n"
proof -
  let ?P = "\<lambda>c. c \<noteq> (0x3A :: 16 word)"
  have n: "n = Suc (length (takeWhile ?P (drop i s)))"
    by (rule matchMarker_colon [OF i])
  have n': "n' = Suc (length (takeWhile ?P (drop j s)))"
    by (rule matchMarker_colon [OF j])
  have "drop j s = drop (j - i) (drop i s)"
    using order by simp
  moreover have "j - i \<le> length (takeWhile ?P (drop i s))"
    using order n by simp
  ultimately have "takeWhile ?P (drop j s) = drop (j - i) (takeWhile ?P (drop i s))"
    by (simp only: takeWhile_drop)
  then have "length (takeWhile ?P (drop j s)) = length (takeWhile ?P (drop i s)) - (j - i)"
    by simp
  with n n' order show ?thesis by simp
qed

lemma covered_marker: "covered markerOccurs s k = reached matchMarker s k"
  unfolding covered_def reached_def markerOccurs_iff
  using matchMarker_bound [of _ s] by (auto simp: Bex_def) fastforce

lemma remove_markers:
  "replaceGlobal matchMarker s = withoutOccurrences markerOccurs s"
proof -
  have "replaceGlobal matchMarker (drop 0 s)
      = map ((!) s) (filter (\<lambda>k. \<not> reached matchMarker s k) [0..<length s])"
    by (rule scan_from) (use matchMarker_bound matchMarker_nest in auto)
  then show ?thesis
    by (simp add: withoutOccurrences_def covered_marker)
qed

lemma matchMention_drop:
  "matchMention (drop i s) = Some n \<longleftrightarrow>
     i < length s \<and> s ! i = 0x40 \<and> 2 \<le> n
       \<and> n = Suc (length (takeWhile inHandleClass (drop (Suc i) s)))"
proof (cases "i < length s")
  case False
  then show ?thesis by simp
next
  case True
  then have split: "drop i s = s ! i # drop (Suc i) s"
    by (simp add: Cons_nth_drop_Suc)
  show ?thesis
  proof (cases "drop (Suc i) s")
    case Nil
    with split True show ?thesis by auto
  next
    case (Cons d r)
    with split True show ?thesis
      by (auto simp: matchMention_Cons2)
  qed
qed

lemma run_members:
  assumes "x < length (takeWhile P u)"
  shows "P (u ! x)"
proof -
  have "takeWhile P u ! x \<in> set (takeWhile P u)"
    using assms by (rule nth_mem)
  then have "P (takeWhile P u ! x)"
    by (rule set_takeWhileD [THEN conjunct2])
  then show ?thesis
    using assms by (simp add: takeWhile_nth)
qed

lemma matchMention_occurs:
  assumes "matchMention (drop i s) = Some n"
  shows "mentionOccurs s i n"
proof -
  let ?u = "drop (Suc i) s"
  from assms have i: "i < length s" "s ! i = 0x40" "2 \<le> n"
    and n: "n = Suc (length (takeWhile inHandleClass ?u))"
    by (simp_all add: matchMention_drop)
  have "length (takeWhile inHandleClass ?u) \<le> length ?u"
    by (rule length_takeWhile_le)
  with i n have fit: "i + n \<le> length s" by simp
  have "inHandleClass (s ! j)" if "j \<in> {Suc i..<i + n}" for j
  proof -
    from that n have "j - Suc i < length (takeWhile inHandleClass ?u)" by auto
    then have "inHandleClass (?u ! (j - Suc i))" by (rule run_members)
    moreover have "?u ! (j - Suc i) = s ! j"
      using that fit by simp
    ultimately show ?thesis by simp
  qed
  with i fit show ?thesis
    by (simp add: mentionOccurs_def)
qed

lemma mentionOccurs_within:
  assumes "mentionOccurs s i n"
  shows "\<exists>n'. matchMention (drop i s) = Some n' \<and> n \<le> n'"
proof -
  let ?u = "drop (Suc i) s"
  from assms have n: "2 \<le> n" "i + n \<le> length s" "s ! i = 0x40"
    and cls: "\<And>j. Suc i \<le> j \<Longrightarrow> j < i + n \<Longrightarrow> inHandleClass (s ! j)"
    by (simp_all add: mentionOccurs_def)
  have "n - 1 \<le> length (takeWhile inHandleClass ?u)"
  proof (rule length_takeWhile_less_P_nth)
    fix x
    assume "x < n - 1"
    then have "inHandleClass (s ! (Suc i + x))"
      by (intro cls) simp_all
    moreover have "?u ! x = s ! (Suc i + x)"
      using n \<open>x < n - 1\<close> by simp
    ultimately show "inHandleClass (?u ! x)" by simp
  next
    show "n - 1 \<le> length ?u"
      using n by simp
  qed
  with n have "matchMention (drop i s) = Some (Suc (length (takeWhile inHandleClass ?u)))
      \<and> n \<le> Suc (length (takeWhile inHandleClass ?u))"
    by (simp add: matchMention_drop) linarith
  then show ?thesis by blast
qed

lemma matchMention_bound:
  "matchMention (drop i s) = Some n \<Longrightarrow> 0 < n \<and> i + n \<le> length s"
  using matchMention_occurs [of i s n] by (simp add: mentionOccurs_def)

lemma matchMention_nest:
  assumes i: "matchMention (drop i s) = Some n" and j: "matchMention (drop j s) = Some n'"
    and order: "i < j" "j < i + n"
  shows "j + n' \<le> i + n"
proof -
  from matchMention_occurs [OF i] order have "inHandleClass (s ! j)"
    by (simp add: mentionOccurs_def)
  moreover from matchMention_occurs [OF j] have "s ! j = 0x40"
    by (simp add: mentionOccurs_def)
  ultimately show ?thesis by simp
qed

lemma covered_mention: "covered mentionOccurs s k = reached matchMention s k"
proof
  assume "covered mentionOccurs s k"
  then obtain i n where a: "i \<le> k" "mentionOccurs s i n" "k < i + n"
    by (auto simp: covered_def)
  from mentionOccurs_within [OF a(2)] obtain n'
    where "matchMention (drop i s) = Some n'" "n \<le> n'"
    by blast
  with a show "reached matchMention s k"
    unfolding reached_def by (intro exI [of _ i] exI [of _ n']) simp
next
  assume "reached matchMention s k"
  then obtain i n where a: "i \<le> k" "matchMention (drop i s) = Some n" "k < i + n"
    by (auto simp: reached_def)
  from matchMention_bound [OF a(2)] have "n \<le> length s" by simp
  with a matchMention_occurs [OF a(2)] show "covered mentionOccurs s k"
    unfolding covered_def by (intro bexI [of _ i] bexI [of _ n]) simp_all
qed

lemma remove_mentions:
  "replaceGlobal matchMention s = withoutOccurrences mentionOccurs s"
proof -
  have "replaceGlobal matchMention (drop 0 s)
      = map ((!) s) (filter (\<lambda>k. \<not> reached matchMention s k) [0..<length s])"
    by (rule scan_from) (use matchMention_bound matchMention_nest in auto)
  then show ?thesis
    by (simp add: withoutOccurrences_def covered_mention)
qed

lemma sample_sanitized:
  "cleanUserMessage (str ''Usuario: hola @bob.smith'') = str ''hola''"
  "cleanUserMessage (str ''  Respuesta: todo bien  '') = str ''todo bien''"
  by code_simp+

lemma sample_cases:
  "cleanUserMessage (str ''uSuArIo: hola'') = str ''hola''"
  "cleanUserMessage (str (''INTERACCI'' @ [CHR 0xD3] @ ''N: asistente: hola'')) = str ''hola''"
  by code_simp+

lemma sample_token: "cleanUserMessage (str ''@Usuario:'') = str ''@''"
  by code_simp

lemma sample_label: "matchMarker (str ''Usuario:'') = Some 8"
  by code_simp

lemma sample_mention: "matchMention (str ''@Usuario:'') = Some 8"
  by (simp add: matchMention_def str_def inHandleClass_def isWordChar_def)

lemma label_alone:
  assumes "m \<in> set roleMarkers" "list_all2 sameLetter v m"
  shows "cleanUserMessage v = []"
proof -
  from assms(2) have len: "length v = length m"
    and eq: "map canonicalize v = map canonicalize m"
    by (simp_all add: sameLetter_list)
  have "matchLiteral m v"
    by (simp add: matchLiteral_iff len eq)
  with assms(1) have found: "matchMarker v = Some (length v)"
    by (auto simp: matchMarker_iff len)
  obtain c cs where v: "v = c # cs"
    using roleMarkers_nonempty [OF assms(1)] len by (cases v) auto
  from found have "replaceGlobal matchMarker v = replaceGlobal matchMarker (drop (length cs) cs)"
    by (simp add: v)
  then have "replaceGlobal matchMarker v = []"
    by simp
  then show ?thesis
    by (simp add: cleanUserMessage_def trim_def)
qed

text \<open>
  C7, as stated, fails: not every token and not every label is gone from the result. The
  input \<open>"@Usuario:"\<close> holds the token \<open>"@Usuario"\<close>, an \<open>@\<close> followed by seven word
  characters, and its \<open>@\<close> is still there in the result \<open>"@"\<close>, because the label is
  deleted first and takes the rest of the token with it. The result of
  \<open>"UsuUsuario:ario:"\<close> is \<open>"Usuario:"\<close>, an occurrence of a label.
\<close>

theorem sanitizer_leaves_token_start_and_label:
  "mentionOccurs (str ''@Usuario:'') 0 8
   \<and> cleanUserMessage (str ''@Usuario:'') = str ''@''
   \<and> cleanUserMessage (str ''UsuUsuario:ario:'') = str ''Usuario:''
   \<and> markerOccurs (str ''Usuario:'') 0 8"
proof -
  have "mentionOccurs (str ''@Usuario:'') 0 8"
    by (rule matchMention_occurs) (simp add: sample_mention)
  moreover have "markerOccurs (str ''Usuario:'') 0 8"
    by (simp add: markerOccurs_iff sample_label)
  ultimately show ?thesis
    by (simp add: sample_token sample_nested)
qed

text \<open>
  C7, amended. \<open>cleanUserMessage\<close> works in three passes. It deletes from its argument
  exactly the positions that lie inside an occurrence of one of the six labels, in
  whatever case the letters of the occurrence are written; it deletes from what is left
  exactly the positions that lie inside an \<open>@\<close> followed by members of \<open>[\w.-]\<close>; and it
  strips white space from both ends: what \<open>trim\<close> cuts off on either side is white space,
  and what it leaves neither begins nor ends with white space. No \<open>@\<close> followed by a
  member of the class is left in the result. Every spelling of a label, in any mixture
  of cases, is sanitized to the empty string. It maps \<open>"Usuario: hola @bob.smith"\<close> to
  \<open>"hola"\<close>, \<open>"  Respuesta: todo bien  "\<close> to \<open>"todo bien"\<close>, \<open>"uSuArIo: hola"\<close> to \<open>"hola"\<close>
  and \<open>"INTERACCI(U+00D3)N: asistente: hola"\<close> to \<open>"hola"\<close>. Called with a string it returns
  a string and does not throw; the empty string gives the empty string.
\<close>

theorem sanitizer_removes_markers_and_mentions:
  "cleanUserMessage s
     = trim (withoutOccurrences mentionOccurs (withoutOccurrences markerOccurs s))
   \<and> (\<exists>a b. u = a @ trim u @ b \<and> (\<forall>c\<in>set a. isWhiteSpace c) \<and> (\<forall>c\<in>set b. isWhiteSpace c))
   \<and> (trim u = [] \<or> (\<not> isWhiteSpace (hd (trim u)) \<and> \<not> isWhiteSpace (last (trim u))))
   \<and> \<not> containsMatch matchMention (cleanUserMessage s)
   \<and> (m \<in> set roleMarkers \<and> list_all2 sameLetter v m \<longrightarrow> cleanUserMessage v = [])
   \<and> cleanUserMessage (str ''Usuario: hola @bob.smith'') = str ''hola''
   \<and> cleanUserMessage (str ''  Respuesta: todo bien  '') = str ''todo bien''
   \<and> cleanUserMessage (str ''uSuArIo: hola'') = str ''hola''
   \<and> cleanUserMessage (str (''INTERACCI'' @ [CHR 0xD3] @ ''N: asistente: hola'')) = str ''hola''
   \<and> callCleanUserMessage (JString s) = Inr (cleanUserMessage s)
   \<and> cleanUserMessage [] = []"
proof -
  have "cleanUserMessage s
     = trim (withoutOccurrences mentionOccurs (withoutOccurrences markerOccurs s))"
    by (simp add: cleanUserMessage_def remove_markers remove_mentions)
  moreover have "\<exists>a b. u = a @ trim u @ b \<and> (\<forall>c\<in>set a. isWhiteSpace c)
      \<and> (\<forall>c\<in>set b. isWhiteSpace c)"
  proof (intro exI conjI)
    show "u = takeWhile isWhiteSpace u @ trim u
         @ rev (takeWhile isWhiteSpace (rev (dropWhile isWhiteSpace u)))"
      by (rule trim_decompose)
    show "\<forall>c\<in>set (takeWhile isWhiteSpace u). isWhiteSpace c"
      by (auto dest: set_takeWhileD)
    show "\<forall>c\<in>set (rev (takeWhile isWhiteSpace (rev (dropWhile isWhiteSpace u)))).
        isWhiteSpace c"
      by (auto dest: set_takeWhileD)
  qed
  moreover have "trim u = [] \<or> (\<not> isWhiteSpace (hd (trim u)) \<and> \<not> isWhiteSpace (last (trim u)))"
    using trim_first [of u] trim_last [of u] by blast
  moreover have "\<not> containsMatch matchMention (cleanUserMessage s)"
    unfolding cleanUserMessage_def
    using containsMatch_mention_trim no_mention_left by blast
  moreover have "m \<in> set roleMarkers \<and> list_all2 sameLetter v m \<longrightarrow> cleanUserMessage v = []"
    using label_alone by blast
  moreover have "cleanUserMessage [] = []"
    by (simp add: cleanUserMessage_def trim_def)
  moreover have "callCleanUserMessage (JString s) = Inr (cleanUserMessage s)"
    by simp
  moreover note sample_sanitized sample_cases
  ultimately show ?thesis
    by blast
qed

theorem sanitizer_removes_markers_and_mentions_witness:
  "trim (withoutOccurrences mentionOccurs
       (withoutOccurrences markerOccurs (str ''uSuArIo: hola @bob.smith''))) = str ''hola''
   \<and> trim (str ''  todo bien  '') \<noteq> []
   \<and> \<not> isWhiteSpace (hd (trim (str ''  todo bien  '')))
   \<and> \<not> isWhiteSpace (last (trim (str ''  todo bien  '')))
   \<and> str ''Asistente:'' \<in> set roleMarkers
   \<and> list_all2 sameLetter (str ''aSISTENTE:'') (str ''Asistente:'')
   \<and> cleanUserMessage (str ''aSISTENTE:'') = []"
proof -
  note t = sanitizer_removes_markers_and_mentions
    [of "str ''uSuArIo: hola @bob.smith''" "str ''  todo bien  ''" "str ''Asistente:''"
      "str ''aSISTENTE:''"]
  have u: "trim (str ''  todo bien  '') = str ''todo bien''"
    by (simp add: trim_def isWhiteSpace_def str_def)
  then have ne: "trim (str ''  todo bien  '') \<noteq> []"
    by (simp add: str_def)
  have mixed: "cleanUserMessage (str ''uSuArIo: hola @bob.smith'') = str ''hola''"
    by code_simp
  have label: "str ''Asistente:'' \<in> set roleMarkers"
    by (simp add: roleMarkers_def)
  have spelling: "list_all2 sameLetter (str ''aSISTENTE:'') (str ''Asistente:'')"
    by (simp add: sameLetter_def otherCase_def str_def)
  from t mixed have "trim (withoutOccurrences mentionOccurs
       (withoutOccurrences markerOccurs (str ''uSuArIo: hola @bob.smith''))) = str ''hola''"
    by (elim conjE) simp
  moreover from t ne
  have "\<not> isWhiteSpace (hd (trim (str ''  todo bien  '')))
      \<and> \<not> isWhiteSpace (last (trim (str ''  todo bien  '')))"
    by (elim conjE) blast
  moreover from t label spelling have "cleanUserMessage (str ''aSISTENTE:'') = []"
    by (elim conjE) blast
  ultimately show ?thesis
    using ne label spelling by blast
qed

text \<open>
  C8, as stated, fails: deleting the label inside \<open>"UsuUsuario:ario:"\<close> joins what stood
  around it to the label \<open>"Usuario:"\<close>, which a second pass deletes.
\<close>

theorem sanitizer_not_idempotent:
  "cleanUserMessage (cleanUserMessage (str ''UsuUsuario:ario:''))
     \<noteq> cleanUserMessage (str ''UsuUsuario:ario:'')"
  by (simp add: sample_nested sample_empty) (simp add: str_def)

text \<open>
  C8, amended. Sanitizing a sanitized string changes nothing exactly when the sanitized
  string contains no occurrence of a role marker; in particular the sanitizer is
  idempotent on every string whose sanitized form holds no role marker.
\<close>

theorem sanitizer_idempotent_without_marker:
  "cleanUserMessage (cleanUserMessage s) = cleanUserMessage s
     \<longleftrightarrow> \<not> containsMatch matchMarker (cleanUserMessage s)"
  by (rule clean_fixed_iff)

lemma sample_no_marker: "\<not> containsMatch matchMarker (str ''hola'')"
  by code_simp

theorem sanitizer_idempotent_without_marker_witness:
  "\<not> containsMatch matchMarker (cleanUserMessage (str ''Usuario: hola @bob.smith''))
   \<and> cleanUserMessage (cleanUserMessage (str ''Usuario: hola @bob.smith''))
     = cleanUserMessage (str ''Usuario: hola @bob.smith'')"
  using sanitizer_idempotent_without_marker [of "str ''Usuario: hola @bob.smith''"]
  by (simp add: sample_sanitized sample_no_marker)

section \<open>The claim about the stored exchange\<close>

lemma sample_clean:
  "cleanUserMessage (str ''Usuario: hola @bob'') = str ''hola''"
  by code_simp

lemma sample_trim:
  "trim (str '' El saldo '') = str ''El saldo''"
  by (simp add: trim_def isWhiteSpace_def str_def)

lemma sample_joined:
  "cleanUserMessage (str ''Usuario@x:'') = str ''Usuario:''"
  by code_simp

text \<open>
  C9, as stated, fails in its last clause: a role marker can stand in the stored user
  turn. The message \<open>"Usuario@x:"\<close> holds no label; deleting the mention \<open>"@x"\<close> joins
  \<open>"Usuario"\<close> and \<open>":"\<close>, and the user turn stored is the label \<open>"Usuario:"\<close>.
\<close>

theorem stored_user_turn_can_hold_marker:
  "history (fst (serve emptyServer
        \<lparr>message = JString (str ''Usuario@x:''), sessionId = Some (str ''s1'')\<rparr>
        (Streams [textChunk (str ''Hola'')] None))) (str ''s1'')
     = [\<lparr>role = User, content = str ''Usuario:''\<rparr>,
        \<lparr>role = Assistant, content = str ''Hola''\<rparr>]
   \<and> markerOccurs (str ''Usuario:'') 0 8"
proof -
  let ?req = "\<lparr>message = JString (str ''Usuario@x:''), sessionId = Some (str ''s1'')\<rparr>"
  have a: "currentSessionIdOf ?req \<notin> sessionsInProcess emptyServer"
    "memoryLookup emptyServer (currentSessionIdOf ?req) \<noteq> Inherited"
    "message ?req = JString (str ''Usuario@x:'')" "str ''Usuario@x:'' \<noteq> []"
    by (simp_all add: sample_ids sample_keys) (simp add: emptyServer_def)
  have t: "trim (str ''Hola'') = str ''Hola''"
    by (simp add: trim_def isWhiteSpace_def str_def)
  have "history (fst (serve emptyServer ?req (Streams [textChunk (str ''Hola'')] None)))
      (str ''s1'')
     = ((history emptyServer)(currentSessionIdOf ?req :=
        history emptyServer (currentSessionIdOf ?req)
          @ [\<lparr>role = User, content = cleanUserMessage (str ''Usuario@x:'')\<rparr>,
             \<lparr>role = Assistant,
                content = trim (concat (forwarded [textChunk (str ''Hola'')]))\<rparr>]))
        (str ''s1'')"
    by (simp only: serve_success_history [OF a])
  also have "\<dots> = [\<lparr>role = User, content = str ''Usuario:''\<rparr>,
        \<lparr>role = Assistant, content = str ''Hola''\<rparr>]"
    by (simp add: sample_ids sample_joined t history_def emptyServer_def)
  finally have "history (fst (serve emptyServer ?req (Streams [textChunk (str ''Hola'')] None)))
      (str ''s1'')
     = [\<lparr>role = User, content = str ''Usuario:''\<rparr>,
        \<lparr>role = Assistant, content = str ''Hola''\<rparr>]" .
  moreover have "markerOccurs (str ''Usuario:'') 0 8"
    by (simp add: markerOccurs_iff sample_label)
  ultimately show ?thesis by simp
qed

text \<open>
  C9, amended. After a request that runs to the end of the \<open>try\<close> block (an idle session
  whose id is no name of \<open>Object.prototype\<close>, a non-empty string message, a stream that
  ends normally) the history of its session has grown by the user turn whose content
  is the sanitized message and the assistant turn whose content is the trimmed
  concatenation of the forwarded deltas, the deltas being those of the \<open>data\<close> frames
  written. The stored user turn is made of the positions of the message that lie in no
  occurrence of a role marker, less the mentions among them, trimmed; no mention is
  left in it; a role marker can stand in it only where the deletions have joined one.
  Both turns can differ from what was sent and received: sanitizing
  \<open>"Usuario: hola @bob"\<close> changes it, and trimming the concatenation of \<open>" El"\<close> and
  \<open>" saldo "\<close> changes it.
\<close>

theorem stored_exchange_is_sanitized_and_trimmed:
  assumes "currentSessionIdOf req \<notin> sessionsInProcess srv"
    and "memoryLookup srv (currentSessionIdOf req) \<noteq> Inherited"
    and "message req = JString s" and "s \<noteq> []"
  shows "history (fst (serve srv req (Streams cs None))) (currentSessionIdOf req)
       = history srv (currentSessionIdOf req)
           @ [\<lparr>role = User, content = cleanUserMessage s\<rparr>,
              \<lparr>role = Assistant, content = trim (concat (forwarded cs))\<rparr>]
     \<and> written (snd (serve srv req (Streams cs None)))
       = map dataFrame (forwarded cs) @ [doneFrame]
     \<and> cleanUserMessage s
       = trim (withoutOccurrences mentionOccurs (withoutOccurrences markerOccurs s))
     \<and> \<not> containsMatch matchMention (cleanUserMessage s)
     \<and> cleanUserMessage (str ''Usuario: hola @bob'') \<noteq> str ''Usuario: hola @bob''
     \<and> trim (concat [str '' El'', str '' saldo '']) \<noteq> concat [str '' El'', str '' saldo '']"
proof -
  have "cleanUserMessage (str ''Usuario: hola @bob'') \<noteq> str ''Usuario: hola @bob''"
    by (simp add: sample_clean) (simp add: str_def)
  moreover have "concat [str '' El'', str '' saldo ''] = str '' El saldo ''"
    by (simp add: str_def)
  then have "trim (concat [str '' El'', str '' saldo '']) \<noteq> concat [str '' El'', str '' saldo '']"
    by (simp add: sample_trim) (simp add: str_def)
  moreover have "cleanUserMessage s
       = trim (withoutOccurrences mentionOccurs (withoutOccurrences markerOccurs s))"
    by (simp add: cleanUserMessage_def remove_markers remove_mentions)
  moreover have "\<not> containsMatch matchMention (cleanUserMessage s)"
    unfolding cleanUserMessage_def
    using containsMatch_mention_trim no_mention_left by blast
  moreover have "history (fst (serve srv req (Streams cs None))) (currentSessionIdOf req)
       = history srv (currentSessionIdOf req)
           @ [\<lparr>role = User, content = cleanUserMessage s\<rparr>,
              \<lparr>role = Assistant, content = trim (concat (forwarded cs))\<rparr>]"
    by (simp add: serve_success_history [OF assms])
  moreover have "written (snd (serve srv req (Streams cs None)))
       = map dataFrame (forwarded cs) @ [doneFrame]"
    by (simp add: serve_success_reply [OF assms] streamReply_def)
  ultimately show ?thesis
    by blast
qed

theorem stored_exchange_is_sanitized_and_trimmed_witness:
  "currentSessionIdOf
       \<lparr>message = JString (str ''Usuario: hola @bob''), sessionId = Some (str ''s1'')\<rparr>
      \<notin> sessionsInProcess emptyServer
   \<and> memoryLookup emptyServer (currentSessionIdOf
       \<lparr>message = JString (str ''Usuario: hola @bob''), sessionId = Some (str ''s1'')\<rparr>)
      \<noteq> Inherited
   \<and> str ''Usuario: hola @bob'' \<noteq> []
   \<and> history (fst (serve emptyServer
        \<lparr>message = JString (str ''Usuario: hola @bob''), sessionId = Some (str ''s1'')\<rparr>
        (Streams [textChunk (str '' El''), textChunk (str '' saldo '')] None))) (str ''s1'')
     = [\<lparr>role = User, content = str ''hola''\<rparr>,
        \<lparr>role = Assistant, content = str ''El saldo''\<rparr>]
   \<and> trim (withoutOccurrences mentionOccurs
        (withoutOccurrences markerOccurs (str ''Usuario: hola @bob''))) = str ''hola''"
proof -
  let ?req = "\<lparr>message = JString (str ''Usuario: hola @bob''), sessionId = Some (str ''s1'')\<rparr>"
  have a: "currentSessionIdOf ?req \<notin> sessionsInProcess emptyServer"
    "memoryLookup emptyServer (currentSessionIdOf ?req) \<noteq> Inherited"
    "message ?req = JString (str ''Usuario: hola @bob'')" "str ''Usuario: hola @bob'' \<noteq> []"
    by (simp_all add: sample_ids sample_keys) (simp add: emptyServer_def)
  have c: "concat [str '' El'', str '' saldo ''] = str '' El saldo ''"
    by (simp add: str_def)
  have f: "forwarded [textChunk (str '' El''), textChunk (str '' saldo '')]
      = [str '' El'', str '' saldo '']"
    by simp
  note t = stored_exchange_is_sanitized_and_trimmed
    [OF a, of "[textChunk (str '' El''), textChunk (str '' saldo '')]"]
  from t have "history (fst (serve emptyServer ?req
        (Streams [textChunk (str '' El''), textChunk (str '' saldo '')] None))) (str ''s1'')
     = [\<lparr>role = User, content = str ''hola''\<rparr>,
        \<lparr>role = Assistant, content = str ''El saldo''\<rparr>]"
    using f c by (simp add: sample_ids sample_clean sample_trim history_def emptyServer_def)
  moreover from t have "trim (withoutOccurrences mentionOccurs
        (withoutOccurrences markerOccurs (str ''Usuario: hola @bob''))) = str ''hola''"
    by (elim conjE) (simp add: sample_clean)
  ultimately show ?thesis
    using a by simp
qed


end
